theory Spec2Isabelle
  imports Complex_Main "HOL-Library.Word"
begin

text \<open>
  A model of the class \<open>PiStepper\<close> (PiStepper.h, PiStepper.cpp), which drives a stepper
  motor through five GPIO lines of libgpiod: the step, direction and enable outputs and
  the two limit switches. Each member function is a function on the state of the object;
  what it does to the lines, its sleeps, its use of the mutex and its output are recorded
  in a trace. A limit switch reads 0 when it is triggered.
\<close>

section \<open>Values of type float and double\<close>

text \<open>
  The members \<open>_speed\<close> and \<open>_acceleration\<close> and the locals \<open>stepDelay\<close>, \<open>stepsPerSecond\<close>
  and \<open>rpm\<close> are C++ floats: binary32 numbers of IEEE 754. A value of the type is the real
  number it denotes, or one of the two kinds of value that are not numbers: an infinity and
  NaN. The signs of zero and of infinity are not kept; no result of the program depends
  on them.
\<close>

datatype cfloat = Num real | Infty | NaN

text \<open>
  Every operation gives its exact result rounded to the format. The exact results, with
  the rules of IEEE 754 for zero, infinity and NaN:
\<close>

fun exact_mul :: "cfloat \<Rightarrow> cfloat \<Rightarrow> cfloat" where
  "exact_mul (Num a) (Num b) = Num (a * b)"
| "exact_mul (Num a) Infty = (if a = 0 then NaN else Infty)"
| "exact_mul Infty (Num b) = (if b = 0 then NaN else Infty)"
| "exact_mul Infty Infty = Infty"
| "exact_mul NaN _ = NaN"
| "exact_mul _ NaN = NaN"

fun exact_div :: "cfloat \<Rightarrow> cfloat \<Rightarrow> cfloat" where
  "exact_div (Num a) (Num b) = (if b = 0 then (if a = 0 then NaN else Infty) else Num (a / b))"
| "exact_div (Num a) Infty = Num 0"
| "exact_div Infty (Num b) = Infty"
| "exact_div Infty Infty = NaN"
| "exact_div NaN _ = NaN"
| "exact_div _ NaN = NaN"

text \<open>
  Rounding to nearest, ties to even. \<open>pow2 e\<close> is \<open>2\<^sup>e\<close>, \<open>log2floor n\<close> the position of the
  leading bit of \<open>n \<ge> 1\<close>, \<open>ilog2 x\<close> the exponent of \<open>x > 0\<close>: the \<open>e\<close> with
  \<open>2\<^sup>e \<le> x < 2\<^sup>e\<^sup>+\<^sup>1\<close>. \<open>rne\<close> rounds to the nearest integer, a tie to the even one.
  \<open>round_to p emin x\<close> rounds \<open>x\<close> to \<open>p\<close> significant bits, and below the exponent \<open>emin\<close>
  to the spacing of the subnormal numbers. A result of magnitude \<open>2\<^sup>1\<^sup>2\<^sup>8\<close> or more (for
  binary64, \<open>2\<^sup>1\<^sup>0\<^sup>2\<^sup>4\<close>) is an overflow, which gives infinity.
\<close>

definition pow2 :: "int \<Rightarrow> real" where
  "pow2 e = (if 0 \<le> e then 2 ^ nat e else 1 / 2 ^ nat (- e))"

function log2floor :: "int \<Rightarrow> int" where
  "log2floor n = (if n < 2 then 0 else 1 + log2floor (n div 2))"
  by pat_completeness auto
termination
  by (relation "measure nat") auto

declare log2floor.simps [simp del]

definition ilog2 :: "real \<Rightarrow> int" where
  "ilog2 x =
     (if 1 \<le> x then log2floor \<lfloor>x\<rfloor>
      else (let j = log2floor \<lfloor>1 / x\<rfloor>
            in if x * pow2 j = 1 then - j else - j - 1))"

definition rne :: "real \<Rightarrow> int" where
  "rne y =
     (if y - real_of_int \<lfloor>y\<rfloor> < 1 / 2 then \<lfloor>y\<rfloor>
      else if 1 / 2 < y - real_of_int \<lfloor>y\<rfloor> then \<lfloor>y\<rfloor> + 1
      else if even \<lfloor>y\<rfloor> then \<lfloor>y\<rfloor> else \<lfloor>y\<rfloor> + 1)"

definition round_to :: "int \<Rightarrow> int \<Rightarrow> real \<Rightarrow> real" where
  "round_to p emin x =
     (if x = 0 then 0
      else (let ulp = pow2 (max (ilog2 \<bar>x\<bar>) emin - p + 1)
            in real_of_int (rne (x / ulp)) * ulp))"

definition binary32 :: "real \<Rightarrow> cfloat" where
  "binary32 x = (if 2 ^ 128 \<le> \<bar>round_to 24 (- 126) x\<bar> then Infty else Num (round_to 24 (- 126) x))"

definition binary64 :: "real \<Rightarrow> cfloat" where
  "binary64 x = (if 2 ^ 1024 \<le> \<bar>round_to 53 (- 1022) x\<bar> then Infty else Num (round_to 53 (- 1022) x))"

definition round32 :: "cfloat \<Rightarrow> cfloat" where
  "round32 x = (case x of Num r \<Rightarrow> binary32 r | Infty \<Rightarrow> Infty | NaN \<Rightarrow> NaN)"

definition round64 :: "cfloat \<Rightarrow> cfloat" where
  "round64 x = (case x of Num r \<Rightarrow> binary64 r | Infty \<Rightarrow> Infty | NaN \<Rightarrow> NaN)"

text \<open>
  The product and the quotient of two floats, and the quotient of two doubles (the
  \<open>60.0 * 1000000 / ...\<close> of the delay is a division of doubles).
\<close>

definition fmul :: "cfloat \<Rightarrow> cfloat \<Rightarrow> cfloat" where
  "fmul a b = round32 (exact_mul a b)"

definition fdiv :: "cfloat \<Rightarrow> cfloat \<Rightarrow> cfloat" where
  "fdiv a b = round32 (exact_div a b)"

definition ddiv :: "cfloat \<Rightarrow> cfloat \<Rightarrow> cfloat" where
  "ddiv a b = round64 (exact_div a b)"

text \<open>
  The conversion of an int to float, as in \<open>_speed * _stepsPerRevolution\<close>: an int of
  more than 24 bits is rounded.
\<close>

definition float_of_int :: "int \<Rightarrow> cfloat" where
  "float_of_int n = binary32 (real_of_int n)"

text \<open>
  The product of two ints, as in \<open>_stepsPerRevolution * _microstepping\<close>: 32 bits in two's
  complement. (C++ leaves the overflow undefined; the model wraps around, as the counter
  does. Every fact below about a function that forms this product is stated for a product
  in the range of \<open>int\<close>, so none depends on the choice.)
\<close>

definition int32 :: "int \<Rightarrow> int" where
  "int32 z = (z + 2 ^ 31) mod 2 ^ 32 - 2 ^ 31"

text \<open>Truncation towards zero, the rule of every float-to-integer conversion in C++.\<close>

definition trunc :: "real \<Rightarrow> int" where
  "trunc x = (if x < 0 then \<lceil>x\<rceil> else \<lfloor>x\<rfloor>)"

text \<open>
  \<open>usleep\<close> takes a \<open>useconds_t\<close>, an unsigned 32-bit integer. Passing a float converts
  it: the value is truncated, and the conversion is undefined (\<open>None\<close>) when the
  truncated value is not a \<open>useconds_t\<close>.
\<close>

definition to_useconds :: "cfloat \<Rightarrow> nat option" where
  "to_useconds x =
     (case x of
        Num r \<Rightarrow> if - 1 < r \<and> r < 2 ^ 32 then Some (nat (trunc r)) else None
      | _ \<Rightarrow> None)"

text \<open>The conversion to a 32-bit int, as in \<open>int steps = std::round(...)\<close>.\<close>

definition to_int :: "cfloat \<Rightarrow> int option" where
  "to_int x =
     (case x of
        Num r \<Rightarrow> if - (2 ^ 31) - 1 < r \<and> r < 2 ^ 31 then Some (trunc r) else None
      | _ \<Rightarrow> None)"

text \<open>
  \<open>std::round\<close> of the C++ library: the nearest integral value, a halfway case going
  away from zero.
\<close>

definition std_round :: "cfloat \<Rightarrow> cfloat" where
  "std_round x =
     (case x of
        Num r \<Rightarrow> Num (real_of_int (if r < 0 then - \<lfloor>- r + 1 / 2\<rfloor> else \<lfloor>r + 1 / 2\<rfloor>))
      | Infty \<Rightarrow> Infty
      | NaN \<Rightarrow> NaN)"

section \<open>The GPIO lines and what the program does to them\<close>

datatype line = step_signal | dir_signal | enable_signal | limit_switch_bottom | limit_switch_top

text \<open>
  Every effect of the program on its surroundings is an event, appended to a trace in
  program order: requests and writes of lines, sleeps, the acquisition and release of
  \<open>gpioMutex\<close> by a \<open>std::lock_guard\<close>, and the lines written to \<open>std::cout\<close>.
\<close>

datatype event =
    RequestOutput line int
  | RequestInput line
  | SetValue line int
  | Usleep "nat option"
  | Lock
  | Unlock
  | Cout string
  | CoutInt string int

text \<open>
  The object. \<open>line_out\<close> holds the value last written to each line. The values of the
  input lines come from outside: \<open>line_in l k\<close> is what the \<open>k\<close>-th call of
  \<open>gpiod_line_get_value\<close> on line \<open>l\<close> returns (counting from 0), and \<open>reads l\<close> counts the
  calls made so far. \<open>_currentStepCount\<close> is a 32-bit int; its increment wraps around.
  The parameters \<open>steps\<close> and \<open>direction\<close> and the loop index are ints that the program
  never takes out of their range; they are modelled as integers.
\<close>

record PiStepper =
  stepPin :: int
  dirPin :: int
  enablePin :: int
  stepsPerRevolution :: int
  microstepping :: int
  speed :: cfloat
  acceleration :: cfloat
  currentStepCount :: "32 word"
  isMoving :: bool
  line_out :: "line \<Rightarrow> int"
  line_in :: "line \<Rightarrow> nat \<Rightarrow> int"
  reads :: "line \<Rightarrow> nat"
  trace :: "event list"

definition emit :: "event \<Rightarrow> PiStepper \<Rightarrow> PiStepper" where
  "emit e s = s\<lparr>trace := trace s @ [e]\<rparr>"

definition gpiod_line_set_value :: "line \<Rightarrow> int \<Rightarrow> PiStepper \<Rightarrow> PiStepper" where
  "gpiod_line_set_value l v s = emit (SetValue l v) (s\<lparr>line_out := (line_out s)(l := v)\<rparr>)"

definition gpiod_line_request_output :: "line \<Rightarrow> int \<Rightarrow> PiStepper \<Rightarrow> PiStepper" where
  "gpiod_line_request_output l v s =
     emit (RequestOutput l v) (s\<lparr>line_out := (line_out s)(l := v)\<rparr>)"

definition gpiod_line_request_input :: "line \<Rightarrow> PiStepper \<Rightarrow> PiStepper" where
  "gpiod_line_request_input l s = emit (RequestInput l) s"

definition gpiod_line_get_value :: "line \<Rightarrow> PiStepper \<Rightarrow> int \<times> PiStepper" where
  "gpiod_line_get_value l s =
     (line_in s l (reads s l), s\<lparr>reads := (reads s)(l := Suc (reads s l))\<rparr>)"

definition usleep :: "cfloat \<Rightarrow> PiStepper \<Rightarrow> PiStepper" where
  "usleep x s = emit (Usleep (to_useconds x)) s"

definition cout :: "string \<Rightarrow> PiStepper \<Rightarrow> PiStepper" where
  "cout msg s = emit (Cout msg) s"

text \<open>The number of pulses in a trace: the rising edges of the step line.\<close>

definition pulses :: "event list \<Rightarrow> nat" where
  "pulses evs = count_list evs (SetValue step_signal 1)"

section \<open>The class PiStepper\<close>

definition enable :: "PiStepper \<Rightarrow> PiStepper" where
  "enable s = gpiod_line_set_value enable_signal 1 s"

definition disable :: "PiStepper \<Rightarrow> PiStepper" where
  "disable s = gpiod_line_set_value enable_signal 0 s"

text \<open>
  The constructor. Its last two arguments are the values that the two limit switches
  will show to the successive reads.
\<close>

definition PiStepper_init ::
  "int \<Rightarrow> int \<Rightarrow> int \<Rightarrow> int \<Rightarrow> int \<Rightarrow> (nat \<Rightarrow> int) \<Rightarrow> (nat \<Rightarrow> int) \<Rightarrow> PiStepper" where
  "PiStepper_init sp dp ep spr ms bottom_values top_values =
     disable
       (gpiod_line_request_input limit_switch_top
         (gpiod_line_request_input limit_switch_bottom
           (gpiod_line_request_output enable_signal 1
             (gpiod_line_request_output dir_signal 0
               (gpiod_line_request_output step_signal 0
                 \<lparr>stepPin = sp, dirPin = dp, enablePin = ep,
                  stepsPerRevolution = spr, microstepping = ms,
                  speed = Num 20, acceleration = Num 80,
                  currentStepCount = 0, isMoving = False,
                  line_out = (\<lambda>l. 0),
                  line_in = (\<lambda>l. if l = limit_switch_top then top_values else bottom_values),
                  reads = (\<lambda>l. 0),
                  trace = []\<rparr>)))))"

definition setSpeed :: "cfloat \<Rightarrow> PiStepper \<Rightarrow> PiStepper" where
  "setSpeed v s = s\<lparr>speed := v\<rparr>"

definition setAcceleration :: "cfloat \<Rightarrow> PiStepper \<Rightarrow> PiStepper" where
  "setAcceleration a s = s\<lparr>acceleration := a\<rparr>"

definition setMicrostepping :: "int \<Rightarrow> PiStepper \<Rightarrow> PiStepper" where
  "setMicrostepping m s = s\<lparr>microstepping := m\<rparr>"

definition getCurrentStepCount :: "PiStepper \<Rightarrow> int" where
  "getCurrentStepCount s = sint (currentStepCount s)"

text \<open>
  \<open>float stepDelay = 60.0 * 1000000 / (_speed * _stepsPerRevolution * _microstepping)\<close>:
  the products are products of floats, taken from the left; the quotient is a quotient of
  doubles (the divisor is converted, which changes nothing), rounded once more when it is
  stored in the float.
\<close>

definition delay_divisor :: "PiStepper \<Rightarrow> cfloat" where
  "delay_divisor s =
     fmul (fmul (speed s) (float_of_int (stepsPerRevolution s))) (float_of_int (microstepping s))"

definition stepDelay :: "PiStepper \<Rightarrow> cfloat" where
  "stepDelay s = round32 (ddiv (Num (60 * 1000000)) (delay_divisor s))"

text \<open>One pulse: the step line high, half the delay, the step line low, half the delay.\<close>

definition pulse :: "cfloat \<Rightarrow> PiStepper \<Rightarrow> PiStepper" where
  "pulse d s =
     usleep (fdiv d (Num 2))
       (gpiod_line_set_value step_signal 0
         (usleep (fdiv d (Num 2))
           (gpiod_line_set_value step_signal 1 s)))"

text \<open>
  The body of the for loop of \<open>internalMoveSteps\<close>: \<open>Inl\<close> is a \<open>break\<close>, \<open>Inr\<close> the end
  of an iteration. The read of a switch is the left operand of \<open>&&\<close>, so it happens
  whatever the direction is.
\<close>

definition internalMoveSteps_body :: "int \<Rightarrow> cfloat \<Rightarrow> PiStepper \<Rightarrow> PiStepper + PiStepper" where
  "internalMoveSteps_body direction d s =
     (let (top, s1) = gpiod_line_get_value limit_switch_top s in
      if top = 0 \<and> direction = 1 then Inl (cout ''Top limit switch triggered'' s1)
      else
        let (bottom, s2) = gpiod_line_get_value limit_switch_bottom s1 in
        if bottom = 0 \<and> direction = 0 then Inl (cout ''Bottom limit switch triggered'' s2)
        else
          let s3 = pulse d s2 in
          Inr (if direction = 0
               then s3\<lparr>currentStepCount := currentStepCount s3 - 1\<rparr>
               else s3\<lparr>currentStepCount := currentStepCount s3 + 1\<rparr>))"

function internalMoveSteps_loop :: "int \<Rightarrow> int \<Rightarrow> cfloat \<Rightarrow> int \<Rightarrow> PiStepper \<Rightarrow> PiStepper" where
  "internalMoveSteps_loop steps direction d i s =
     (if i < steps then
        (case internalMoveSteps_body direction d s of
           Inl s' \<Rightarrow> s'
         | Inr s' \<Rightarrow> internalMoveSteps_loop steps direction d (i + 1) s')
      else s)"
  by pat_completeness auto
termination
  by (relation "measure (\<lambda>(steps, direction, d, i, s). nat (steps - i))") auto

declare internalMoveSteps_loop.simps [simp del]

definition internalMoveSteps :: "int \<Rightarrow> int \<Rightarrow> PiStepper \<Rightarrow> PiStepper" where
  "internalMoveSteps steps direction s =
     (let s1 = gpiod_line_set_value dir_signal direction (enable s) in
      disable (internalMoveSteps_loop steps direction (stepDelay s1) 0 s1))"

definition moveSteps :: "int \<Rightarrow> int \<Rightarrow> PiStepper \<Rightarrow> PiStepper" where
  "moveSteps steps direction s =
     emit Unlock
       ((internalMoveSteps steps direction ((emit Lock s)\<lparr>isMoving := True\<rparr>))\<lparr>isMoving := False\<rparr>)"

text \<open>
  \<open>moveAngle\<close>: the product of the two ints is converted to float and divided by
  \<open>360.0f\<close>, and the angle is multiplied by that quotient. The conversion of the rounded
  value to \<open>int\<close> has no defined result outside the range of \<open>int\<close>; the model stops there
  with \<open>None\<close>.
\<close>

definition moveAngle_steps :: "cfloat \<Rightarrow> PiStepper \<Rightarrow> int option" where
  "moveAngle_steps angle s =
     to_int (std_round (fmul angle
       (fdiv (float_of_int (int32 (stepsPerRevolution s * microstepping s))) (Num 360))))"

definition moveAngle :: "cfloat \<Rightarrow> int \<Rightarrow> PiStepper \<Rightarrow> PiStepper option" where
  "moveAngle angle direction s =
     (case moveAngle_steps angle s of
        None \<Rightarrow> None
      | Some steps \<Rightarrow>
          Some (emit (CoutInt ''Calculated steps: '' steps) (moveSteps steps direction s)))"

definition moveStepsOverDuration_rpm :: "int \<Rightarrow> int \<Rightarrow> PiStepper \<Rightarrow> cfloat" where
  "moveStepsOverDuration_rpm steps durationSeconds s =
     fdiv (fmul (fdiv (float_of_int steps) (float_of_int durationSeconds)) (Num 60))
       (float_of_int (int32 (stepsPerRevolution s * microstepping s)))"

definition moveStepsOverDuration :: "int \<Rightarrow> int \<Rightarrow> PiStepper \<Rightarrow> PiStepper" where
  "moveStepsOverDuration steps durationSeconds s =
     moveSteps steps 1 (setSpeed (moveStepsOverDuration_rpm steps durationSeconds s) s)"

text \<open>
  The while loop of \<open>homeMotor\<close> has no bound: it runs as long as the bottom switch reads 1.
  \<open>None\<close> is the run that never leaves the loop.
\<close>

partial_function (option) homeMotor_loop :: "cfloat \<Rightarrow> PiStepper \<Rightarrow> PiStepper option" where
  "homeMotor_loop d s =
     (if fst (gpiod_line_get_value limit_switch_bottom s) = 1
      then homeMotor_loop d (pulse d (snd (gpiod_line_get_value limit_switch_bottom s)))
      else Some (snd (gpiod_line_get_value limit_switch_bottom s)))"

definition homeMotor :: "PiStepper \<Rightarrow> PiStepper option" where
  "homeMotor s =
     (let s1 = gpiod_line_set_value dir_signal 0 (enable s) in
      case homeMotor_loop (stepDelay s1) s1 of
        None \<Rightarrow> None
      | Some s2 \<Rightarrow> Some (disable (s2\<lparr>currentStepCount := 0\<rparr>)))"

definition stopMovement :: "PiStepper \<Rightarrow> PiStepper" where
  "stopMovement s = emit Unlock (disable ((emit Lock s)\<lparr>isMoving := False\<rparr>))"

definition emergencyStop :: "PiStepper \<Rightarrow> PiStepper" where
  "emergencyStop s =
     emit Unlock
       (cout ''Emergency Stop Activated!''
         ((disable ((emit Lock s)\<lparr>isMoving := False\<rparr>))\<lparr>currentStepCount := 0\<rparr>))"

text \<open>The events of one pulse whose two sleeps are called with \<open>h\<close>.\<close>

definition pulse_events :: "nat option \<Rightarrow> event list" where
  "pulse_events h = [SetValue step_signal 1, Usleep h, SetValue step_signal 0, Usleep h]"

text \<open>
  \<open>calibrate\<close>, with \<open>FULL_COUNT_RANGE\<close> = 1700. The count is printed as a signed number.
  \<open>moveStepsAsync\<close> starts a detached thread that calls \<open>moveSteps\<close>; threads are outside
  this model.
\<close>

definition calibrate :: "PiStepper \<Rightarrow> PiStepper option" where
  "calibrate s =
     (case homeMotor s of
        None \<Rightarrow> None
      | Some s1 \<Rightarrow>
          Some (let s2 = moveSteps 1700 1 s1
                in emit (CoutInt ''Calibration complete. Full range: '' (sint (currentStepCount s2))) s2))"

section \<open>Steppers for the examples\<close>

text \<open>
  The stepper of the driver application, \<open>PiStepper stepper(27, 17, 22, 200, 8)\<close>, in three
  surroundings: no switch ever triggered; the top switch triggered from the start; the
  bottom switch triggering at its third read. The last two are a stepper constructed with
  0 steps per revolution, and one with 125 full steps per revolution.
\<close>

definition clear_stepper :: PiStepper where
  "clear_stepper = PiStepper_init 27 17 22 200 8 (\<lambda>k. 1) (\<lambda>k. 1)"

definition top_asserted_stepper :: PiStepper where
  "top_asserted_stepper = PiStepper_init 27 17 22 200 8 (\<lambda>k. 1) (\<lambda>k. 0)"

definition homing_stepper :: PiStepper where
  "homing_stepper = PiStepper_init 27 17 22 200 8 (\<lambda>k. if k < 2 then 1 else 0) (\<lambda>k. 1)"

definition zero_geometry_stepper :: PiStepper where
  "zero_geometry_stepper = PiStepper_init 27 17 22 0 8 (\<lambda>k. 1) (\<lambda>k. 1)"

definition stepper_125 :: PiStepper where
  "stepper_125 = PiStepper_init 27 17 22 125 1 (\<lambda>k. 1) (\<lambda>k. 1)"

section \<open>Basic facts\<close>

lemma emit_fields [simp]:
  "trace (emit e s) = trace s @ [e]"
  "currentStepCount (emit e s) = currentStepCount s"
  "isMoving (emit e s) = isMoving s"
  "line_out (emit e s) = line_out s"
  "line_in (emit e s) = line_in s"
  "reads (emit e s) = reads s"
  "speed (emit e s) = speed s"
  "stepsPerRevolution (emit e s) = stepsPerRevolution s"
  "microstepping (emit e s) = microstepping s"
  by (simp_all add: emit_def)

lemma set_value_fields [simp]:
  "trace (gpiod_line_set_value l v s) = trace s @ [SetValue l v]"
  "currentStepCount (gpiod_line_set_value l v s) = currentStepCount s"
  "isMoving (gpiod_line_set_value l v s) = isMoving s"
  "line_out (gpiod_line_set_value l v s) = (line_out s)(l := v)"
  "line_in (gpiod_line_set_value l v s) = line_in s"
  "reads (gpiod_line_set_value l v s) = reads s"
  "speed (gpiod_line_set_value l v s) = speed s"
  "stepsPerRevolution (gpiod_line_set_value l v s) = stepsPerRevolution s"
  "microstepping (gpiod_line_set_value l v s) = microstepping s"
  by (simp_all add: gpiod_line_set_value_def)

lemma get_value_fields [simp]:
  "fst (gpiod_line_get_value l s) = line_in s l (reads s l)"
  "trace (snd (gpiod_line_get_value l s)) = trace s"
  "currentStepCount (snd (gpiod_line_get_value l s)) = currentStepCount s"
  "isMoving (snd (gpiod_line_get_value l s)) = isMoving s"
  "line_out (snd (gpiod_line_get_value l s)) = line_out s"
  "line_in (snd (gpiod_line_get_value l s)) = line_in s"
  "reads (snd (gpiod_line_get_value l s)) = (reads s)(l := Suc (reads s l))"
  "speed (snd (gpiod_line_get_value l s)) = speed s"
  "stepsPerRevolution (snd (gpiod_line_get_value l s)) = stepsPerRevolution s"
  "microstepping (snd (gpiod_line_get_value l s)) = microstepping s"
  by (simp_all add: gpiod_line_get_value_def)

lemma pulse_fields [simp]:
  "trace (pulse d s) = trace s @ [SetValue step_signal 1, Usleep (to_useconds (fdiv d (Num 2))),
      SetValue step_signal 0, Usleep (to_useconds (fdiv d (Num 2)))]"
  "currentStepCount (pulse d s) = currentStepCount s"
  "isMoving (pulse d s) = isMoving s"
  "line_out (pulse d s) = (line_out s)(step_signal := 0)"
  "line_in (pulse d s) = line_in s"
  "reads (pulse d s) = reads s"
  "speed (pulse d s) = speed s"
  "stepsPerRevolution (pulse d s) = stepsPerRevolution s"
  "microstepping (pulse d s) = microstepping s"
  by (simp_all add: pulse_def usleep_def)

lemma body_Inl:
  "internalMoveSteps_body direction d s = Inl s' \<Longrightarrow>
     currentStepCount s' = currentStepCount s \<and> pulses (trace s') = pulses (trace s)
     \<and> line_in s' = line_in s \<and> speed s' = speed s \<and> isMoving s' = isMoving s
     \<and> stepsPerRevolution s' = stepsPerRevolution s \<and> microstepping s' = microstepping s
     \<and> ((direction = 1 \<and> line_in s limit_switch_top (reads s limit_switch_top) = 0)
        \<or> (direction = 0 \<and> line_in s limit_switch_bottom (reads s limit_switch_bottom) = 0))"
  by (auto simp: internalMoveSteps_body_def Let_def cout_def pulses_def split_beta split: if_splits)

lemma body_Inr:
  "internalMoveSteps_body direction d s = Inr s' \<Longrightarrow>
     currentStepCount s' = currentStepCount s + (if direction = 0 then - 1 else 1)
     \<and> pulses (trace s') = Suc (pulses (trace s))
     \<and> line_in s' = line_in s \<and> speed s' = speed s \<and> isMoving s' = isMoving s
     \<and> stepsPerRevolution s' = stepsPerRevolution s \<and> microstepping s' = microstepping s"
  by (auto simp: internalMoveSteps_body_def Let_def cout_def pulses_def split_beta split: if_splits)

lemma loop_frame:
  "line_in (internalMoveSteps_loop steps direction d i s) = line_in s
   \<and> speed (internalMoveSteps_loop steps direction d i s) = speed s
   \<and> isMoving (internalMoveSteps_loop steps direction d i s) = isMoving s
   \<and> stepsPerRevolution (internalMoveSteps_loop steps direction d i s) = stepsPerRevolution s
   \<and> microstepping (internalMoveSteps_loop steps direction d i s) = microstepping s"
proof (induction steps direction d i s rule: internalMoveSteps_loop.induct)
  case (1 steps direction d i s)
  show ?case
  proof (cases "i < steps")
    case False
    then show ?thesis by (simp add: internalMoveSteps_loop.simps)
  next
    case True
    show ?thesis
    proof (cases "internalMoveSteps_body direction d s")
      case (Inl s')
      with True body_Inl [OF Inl] show ?thesis
        by (simp add: internalMoveSteps_loop.simps [of steps direction d i s])
    next
      case (Inr s')
      with True body_Inr [OF Inr] "1.IH" [OF True Inr] show ?thesis
        by (simp add: internalMoveSteps_loop.simps [of steps direction d i s])
    qed
  qed
qed

lemma loop_no_stop:
  "(direction = 1 \<longrightarrow> (\<forall>k. line_in s limit_switch_top k \<noteq> 0)) \<Longrightarrow>
   (direction = 0 \<longrightarrow> (\<forall>k. line_in s limit_switch_bottom k \<noteq> 0)) \<Longrightarrow>
   currentStepCount (internalMoveSteps_loop steps direction d i s) =
     currentStepCount s + (if direction = 0 then - 1 else 1) * word_of_int (max 0 (steps - i))
   \<and> pulses (trace (internalMoveSteps_loop steps direction d i s)) =
     pulses (trace s) + nat (steps - i)"
proof (induction steps direction d i s rule: internalMoveSteps_loop.induct)
  case (1 steps direction d i s)
  show ?case
  proof (cases "i < steps")
    case False
    then show ?thesis by (simp add: internalMoveSteps_loop.simps)
  next
    case True
    show ?thesis
    proof (cases "internalMoveSteps_body direction d s")
      case (Inl s')
      with body_Inl [OF Inl] "1.prems" show ?thesis by auto
    next
      case (Inr s')
      have m: "max 0 (steps - i) = 1 + max 0 (steps - (i + 1))"
        using True by simp
      have n: "nat (steps - i) = Suc (nat (steps - (i + 1)))"
        using True by simp
      from body_Inr [OF Inr] "1.prems"
      have ih: "currentStepCount (internalMoveSteps_loop steps direction d (i + 1) s') =
           currentStepCount s' + (if direction = 0 then - 1 else 1) * word_of_int (max 0 (steps - (i + 1)))
         \<and> pulses (trace (internalMoveSteps_loop steps direction d (i + 1) s')) =
           pulses (trace s') + nat (steps - (i + 1))"
        by (intro "1.IH" [OF True Inr]) simp_all
      have unf: "internalMoveSteps_loop steps direction d i s =
          internalMoveSteps_loop steps direction d (i + 1) s'"
        using True Inr by (simp add: internalMoveSteps_loop.simps [of steps direction d i s])
      show ?thesis
        unfolding unf using ih body_Inr [OF Inr] by (simp add: m n algebra_simps)
    qed
  qed
qed

lemma loop_stops_at_once:
  "(direction = 1 \<and> line_in s limit_switch_top (reads s limit_switch_top) = 0)
   \<or> (direction = 0 \<and> line_in s limit_switch_bottom (reads s limit_switch_bottom) = 0) \<Longrightarrow>
   currentStepCount (internalMoveSteps_loop steps direction d i s) = currentStepCount s
   \<and> pulses (trace (internalMoveSteps_loop steps direction d i s)) = pulses (trace s)"
  by (auto simp: internalMoveSteps_loop.simps [of steps direction d i s]
      internalMoveSteps_body_def Let_def split_beta cout_def pulses_def)

lemma pulses_simps [simp]:
  "pulses [] = 0"
  "pulses (e # evs) = (if e = SetValue step_signal 1 then 1 else 0) + pulses evs"
  "pulses (evs @ evs') = pulses evs + pulses evs'"
  by (induction evs) (simp_all add: pulses_def)

lemma stepDelay_simps [simp]:
  "stepDelay (emit e s) = stepDelay s"
  "stepDelay (gpiod_line_set_value l v s) = stepDelay s"
  "stepDelay (s\<lparr>isMoving := b\<rparr>) = stepDelay s"
  "stepDelay (s\<lparr>currentStepCount := c\<rparr>) = stepDelay s"
  by (simp_all add: stepDelay_def delay_divisor_def)

lemma internalMoveSteps_loop_form:
  "internalMoveSteps n d s =
     disable (internalMoveSteps_loop n d (stepDelay s) 0
       (gpiod_line_set_value dir_signal d (enable s)))"
  by (simp add: internalMoveSteps_def Let_def enable_def)

lemma moveSteps_loop_form:
  "moveSteps n d s =
     emit Unlock ((disable (internalMoveSteps_loop n d (stepDelay s) 0
       (gpiod_line_set_value dir_signal d (enable ((emit Lock s)\<lparr>isMoving := True\<rparr>)))))
         \<lparr>isMoving := False\<rparr>)"
  by (simp add: moveSteps_def internalMoveSteps_loop_form)

lemma PiStepper_init_fields [simp]:
  "line_in (PiStepper_init sp dp ep spr ms b t) limit_switch_top = t"
  "line_in (PiStepper_init sp dp ep spr ms b t) limit_switch_bottom = b"
  "reads (PiStepper_init sp dp ep spr ms b t) l = 0"
  "currentStepCount (PiStepper_init sp dp ep spr ms b t) = 0"
  "speed (PiStepper_init sp dp ep spr ms b t) = Num 20"
  "stepsPerRevolution (PiStepper_init sp dp ep spr ms b t) = spr"
  "microstepping (PiStepper_init sp dp ep spr ms b t) = ms"
  by (simp_all add: PiStepper_init_def disable_def gpiod_line_request_input_def
      gpiod_line_request_output_def)

lemma homeMotor_loop_returns:
  "line_in s limit_switch_bottom (reads s limit_switch_bottom + k) \<noteq> 1 \<Longrightarrow>
   \<exists>s'. homeMotor_loop d s = Some s' \<and> currentStepCount s' = currentStepCount s"
proof (induction k arbitrary: s)
  case 0
  then show ?case
    by (subst homeMotor_loop.simps) simp
next
  case (Suc k)
  show ?case
  proof (cases "line_in s limit_switch_bottom (reads s limit_switch_bottom) = 1")
    case False
    then show ?thesis
      by (subst homeMotor_loop.simps) simp
  next
    case True
    define s1 where "s1 = pulse d (snd (gpiod_line_get_value limit_switch_bottom s))"
    have "line_in s1 limit_switch_bottom (reads s1 limit_switch_bottom + k) \<noteq> 1"
      using Suc.prems by (simp add: s1_def)
    from Suc.IH [OF this] obtain s' where
      "homeMotor_loop d s1 = Some s'" "currentStepCount s' = currentStepCount s1"
      by blast
    then show ?thesis
      using True by (subst homeMotor_loop.simps) (simp add: s1_def)
  qed
qed

lemma body_trace:
  "internalMoveSteps_body direction d s = Inl s' \<Longrightarrow>
     trace s' = trace s @ [Cout ''Top limit switch triggered'']
     \<or> trace s' = trace s @ [Cout ''Bottom limit switch triggered'']"
  "internalMoveSteps_body direction d s = Inr s' \<Longrightarrow>
     trace s' = trace s @ pulse_events (to_useconds (fdiv d (Num 2)))"
  by (auto simp: internalMoveSteps_body_def Let_def cout_def split_beta pulse_events_def
      split: if_splits)

lemma loop_trace:
  "\<exists>k msg. trace (internalMoveSteps_loop steps direction d i s) =
      trace s @ concat (replicate k (pulse_events (to_useconds (fdiv d (Num 2))))) @ msg
    \<and> (msg = [] \<or> msg = [Cout ''Top limit switch triggered'']
        \<or> msg = [Cout ''Bottom limit switch triggered''])"
proof (induction steps direction d i s rule: internalMoveSteps_loop.induct)
  case (1 steps direction d i s)
  let ?P = "pulse_events (to_useconds (fdiv d (Num 2)))"
  show ?case
  proof (cases "i < steps")
    case False
    then have "trace (internalMoveSteps_loop steps direction d i s) =
        trace s @ concat (replicate 0 ?P) @ []"
      by (simp add: internalMoveSteps_loop.simps)
    then show ?thesis by blast
  next
    case True
    show ?thesis
    proof (cases "internalMoveSteps_body direction d s")
      case (Inl s')
      then have unf: "internalMoveSteps_loop steps direction d i s = s'"
        using True by (simp add: internalMoveSteps_loop.simps [of steps direction d i s])
      from body_trace(1) [OF Inl] obtain msg where
        "trace s' = trace s @ concat (replicate 0 ?P) @ msg"
        "msg = [Cout ''Top limit switch triggered''] \<or> msg = [Cout ''Bottom limit switch triggered'']"
        by auto
      then show ?thesis unfolding unf by blast
    next
      case (Inr s')
      then have unf: "internalMoveSteps_loop steps direction d i s =
          internalMoveSteps_loop steps direction d (i + 1) s'"
        using True by (simp add: internalMoveSteps_loop.simps [of steps direction d i s])
      from "1.IH" [OF True Inr] obtain k msg where
        ih: "trace (internalMoveSteps_loop steps direction d (i + 1) s') =
          trace s' @ concat (replicate k ?P) @ msg"
        and msg: "msg = [] \<or> msg = [Cout ''Top limit switch triggered'']
          \<or> msg = [Cout ''Bottom limit switch triggered'']"
        by blast
      have "trace (internalMoveSteps_loop steps direction d i s) =
          trace s @ concat (replicate (Suc k) ?P) @ msg"
        unfolding unf ih using body_trace(2) [OF Inr] by simp
      with msg show ?thesis by blast
    qed
  qed
qed

lemma moveSteps_frame:
  "speed (moveSteps n d s) = speed s"
  "stepsPerRevolution (moveSteps n d s) = stepsPerRevolution s"
  "microstepping (moveSteps n d s) = microstepping s"
  "line_in (moveSteps n d s) = line_in s"
  "\<not> isMoving (moveSteps n d s)"
  "line_out (moveSteps n d s) enable_signal = 0"
  by (simp_all add: moveSteps_loop_form disable_def loop_frame enable_def)

lemma floor_half_bounds:
  fixes y :: real
  shows "real_of_int \<lfloor>y + 1 / 2\<rfloor> \<le> y + 1 / 2" "y - 1 / 2 < real_of_int \<lfloor>y + 1 / 2\<rfloor>"
  by linarith+

lemma std_round_nearest:
  fixes x :: real
  defines "r \<equiv> (if x < 0 then - \<lfloor>- x + 1 / 2\<rfloor> else \<lfloor>x + 1 / 2\<rfloor>)"
  shows "\<bar>real_of_int r - x\<bar> \<le> 1 / 2"
    and "\<bar>real_of_int r - x\<bar> = 1 / 2 \<Longrightarrow> \<bar>x\<bar> < \<bar>real_of_int r\<bar>"
proof -
  have neg: "real_of_int r = - real_of_int \<lfloor>- x + 1 / 2\<rfloor>" if "x < 0"
    using that unfolding r_def by simp
  have pos: "real_of_int r = real_of_int \<lfloor>x + 1 / 2\<rfloor>" if "\<not> x < 0"
    using that unfolding r_def by simp
  show "\<bar>real_of_int r - x\<bar> \<le> 1 / 2"
  proof (cases "x < 0")
    case True
    from neg [OF True] floor_half_bounds [of "- x"] show ?thesis by linarith
  next
    case False
    from pos [OF False] floor_half_bounds [of x] show ?thesis by linarith
  qed
  show "\<bar>x\<bar> < \<bar>real_of_int r\<bar>" if h: "\<bar>real_of_int r - x\<bar> = 1 / 2"
  proof (cases "x < 0")
    case True
    from neg [OF True] floor_half_bounds [of "- x"] h True show ?thesis by linarith
  next
    case False
    from pos [OF False] floor_half_bounds [of x] h False show ?thesis by linarith
  qed
qed

lemma moveSteps_forward_free:
  "\<forall>k. line_in s limit_switch_top k \<noteq> 0 \<Longrightarrow>
   pulses (trace (moveSteps n 1 s)) = pulses (trace s) + nat n
   \<and> currentStepCount (moveSteps n 1 s) = currentStepCount s + word_of_int (max 0 n)"
proof -
  assume top: "\<forall>k. line_in s limit_switch_top k \<noteq> 0"
  define s1 where "s1 = gpiod_line_set_value dir_signal 1 (enable ((emit Lock s)\<lparr>isMoving := True\<rparr>))"
  have s1: "currentStepCount s1 = currentStepCount s" "pulses (trace s1) = pulses (trace s)"
    by (simp_all add: s1_def enable_def)
  have "currentStepCount (internalMoveSteps_loop n 1 (stepDelay s) 0 s1) =
      currentStepCount s1 + (if (1::int) = 0 then - 1 else 1) * word_of_int (max 0 (n - 0))
     \<and> pulses (trace (internalMoveSteps_loop n 1 (stepDelay s) 0 s1)) =
      pulses (trace s1) + nat (n - 0)"
    using top by (intro loop_no_stop) (simp_all add: s1_def enable_def)
  then show ?thesis
    using s1 by (simp add: moveSteps_loop_form disable_def s1_def [symmetric])
qed

lemma moveAngle_forward_free:
  "moveAngle_steps a s = Some n \<Longrightarrow> \<forall>k. line_in s limit_switch_top k \<noteq> 0 \<Longrightarrow>
   \<exists>s'. moveAngle a 1 s = Some s' \<and> pulses (trace s') = pulses (trace s) + nat n
     \<and> currentStepCount s' = currentStepCount s + word_of_int (max 0 n)"
  using moveSteps_forward_free [of s n] by (simp add: moveAngle_def)

lemma body_line_out:
  "internalMoveSteps_body direction d s = Inl s' \<Longrightarrow> line_out s' = line_out s"
  "internalMoveSteps_body direction d s = Inr s' \<Longrightarrow> line_out s' = (line_out s)(step_signal := 0)"
  by (auto simp: internalMoveSteps_body_def Let_def cout_def split_beta split: if_splits)

lemma loop_line_out:
  "l \<noteq> step_signal \<Longrightarrow>
   line_out (internalMoveSteps_loop steps direction d i s) l = line_out s l"
proof (induction steps direction d i s rule: internalMoveSteps_loop.induct)
  case (1 steps direction d i s)
  show ?case
  proof (cases "i < steps")
    case False
    then show ?thesis by (simp add: internalMoveSteps_loop.simps)
  next
    case True
    show ?thesis
    proof (cases "internalMoveSteps_body direction d s")
      case (Inl s')
      with True body_line_out(1) [OF Inl] show ?thesis
        by (simp add: internalMoveSteps_loop.simps [of steps direction d i s])
    next
      case (Inr s')
      with True body_line_out(2) [OF Inr] "1.IH" [OF True Inr "1.prems"] "1.prems" show ?thesis
        by (simp add: internalMoveSteps_loop.simps [of steps direction d i s])
    qed
  qed
qed

lemma loop_no_stop_trace:
  "(direction = 1 \<longrightarrow> (\<forall>k. line_in s limit_switch_top k \<noteq> 0)) \<Longrightarrow>
   (direction = 0 \<longrightarrow> (\<forall>k. line_in s limit_switch_bottom k \<noteq> 0)) \<Longrightarrow>
   trace (internalMoveSteps_loop steps direction d i s) =
     trace s @ concat (replicate (nat (steps - i)) (pulse_events (to_useconds (fdiv d (Num 2)))))"
proof (induction steps direction d i s rule: internalMoveSteps_loop.induct)
  case (1 steps direction d i s)
  show ?case
  proof (cases "i < steps")
    case False
    then show ?thesis by (simp add: internalMoveSteps_loop.simps)
  next
    case True
    show ?thesis
    proof (cases "internalMoveSteps_body direction d s")
      case (Inl s')
      with body_Inl [OF Inl] "1.prems" show ?thesis by auto
    next
      case (Inr s')
      have n: "nat (steps - i) = Suc (nat (steps - (i + 1)))"
        using True by simp
      from body_Inr [OF Inr] "1.prems"
      have ih: "trace (internalMoveSteps_loop steps direction d (i + 1) s') =
          trace s' @ concat (replicate (nat (steps - (i + 1)))
            (pulse_events (to_useconds (fdiv d (Num 2)))))"
        by (intro "1.IH" [OF True Inr]) simp_all
      have unf: "internalMoveSteps_loop steps direction d i s =
          internalMoveSteps_loop steps direction d (i + 1) s'"
        using True Inr by (simp add: internalMoveSteps_loop.simps [of steps direction d i s])
      show ?thesis
        unfolding unf ih n using body_trace(2) [OF Inr] by simp
    qed
  qed
qed

lemma internalMoveSteps_trace:
  "\<exists>k msg. trace (internalMoveSteps steps direction s) =
      trace s @ [SetValue enable_signal 1, SetValue dir_signal direction]
        @ concat (replicate k (pulse_events (to_useconds (fdiv (stepDelay s) (Num 2)))))
        @ msg @ [SetValue enable_signal 0]
    \<and> (msg = [] \<or> msg = [Cout ''Top limit switch triggered'']
        \<or> msg = [Cout ''Bottom limit switch triggered''])"
proof -
  define s1 where "s1 = gpiod_line_set_value dir_signal direction (enable s)"
  from loop_trace [of steps direction "stepDelay s" 0 s1] obtain k msg where
    "trace (internalMoveSteps_loop steps direction (stepDelay s) 0 s1) =
      trace s1 @ concat (replicate k (pulse_events (to_useconds (fdiv (stepDelay s) (Num 2))))) @ msg"
    and msg: "msg = [] \<or> msg = [Cout ''Top limit switch triggered'']
        \<or> msg = [Cout ''Bottom limit switch triggered'']"
    by blast
  then have "trace (internalMoveSteps steps direction s) =
      trace s @ [SetValue enable_signal 1, SetValue dir_signal direction]
        @ concat (replicate k (pulse_events (to_useconds (fdiv (stepDelay s) (Num 2)))))
        @ msg @ [SetValue enable_signal 0]"
    by (simp add: internalMoveSteps_loop_form disable_def s1_def [symmetric])
      (simp add: s1_def enable_def)
  with msg show ?thesis by blast
qed

lemma homeMotor_loop_trace:
  assumes "homeMotor_loop d s = Some s'"
  shows "\<exists>k. trace s' = trace s @ concat (replicate k (pulse_events (to_useconds (fdiv d (Num 2)))))"
proof (rule homeMotor_loop.raw_induct
    [where P = "\<lambda>d s s'. \<exists>k. trace s' =
       trace s @ concat (replicate k (pulse_events (to_useconds (fdiv d (Num 2)))))", OF _ assms])
  fix loop :: "cfloat \<Rightarrow> PiStepper \<Rightarrow> PiStepper option" and d s s'
  let ?P = "pulse_events (to_useconds (fdiv d (Num 2)))"
  let ?s1 = "snd (gpiod_line_get_value limit_switch_bottom s)"
  assume ih: "\<And>d s s'. loop d s = Some s' \<Longrightarrow>
      \<exists>k. trace s' = trace s @ concat (replicate k (pulse_events (to_useconds (fdiv d (Num 2)))))"
    and eq: "(if fst (gpiod_line_get_value limit_switch_bottom s) = 1
      then loop d (pulse d ?s1) else Some ?s1) = Some s'"
  show "\<exists>k. trace s' = trace s @ concat (replicate k ?P)"
  proof (cases "fst (gpiod_line_get_value limit_switch_bottom s) = 1")
    case False
    with eq have "trace s' = trace s @ concat (replicate 0 ?P)"
      by auto
    then show ?thesis by blast
  next
    case True
    with eq have "loop d (pulse d ?s1) = Some s'"
      by simp
    from ih [OF this] obtain k where
      "trace s' = trace (pulse d ?s1) @ concat (replicate k ?P)"
      by blast
    then have "trace s' = trace s @ concat (replicate (Suc k) ?P)"
      by (simp add: pulse_events_def)
    then show ?thesis by blast
  qed
qed

lemma count_list_pulses_Lock [simp]:
  "count_list (concat (replicate k (pulse_events h))) Lock = 0"
  by (induction k) (simp_all add: pulse_events_def)

lemma moveSteps_locks_once:
  "count_list (trace (moveSteps n d s)) Lock = Suc (count_list (trace s) Lock)"
proof -
  define s1 where "s1 = gpiod_line_set_value dir_signal d (enable ((emit Lock s)\<lparr>isMoving := True\<rparr>))"
  from loop_trace [of n d "stepDelay s" 0 s1] obtain k msg where
    "trace (internalMoveSteps_loop n d (stepDelay s) 0 s1) =
      trace s1 @ concat (replicate k (pulse_events (to_useconds (fdiv (stepDelay s) (Num 2))))) @ msg"
    and "msg = [] \<or> msg = [Cout ''Top limit switch triggered'']
        \<or> msg = [Cout ''Bottom limit switch triggered'']"
    by blast
  then have "count_list (trace (internalMoveSteps_loop n d (stepDelay s) 0 s1)) Lock =
      Suc (count_list (trace s) Lock)"
    by (auto simp: s1_def enable_def)
  then show ?thesis
    by (simp add: moveSteps_loop_form disable_def s1_def [symmetric])
qed

section \<open>The pulse loop and the limit switches\<close>

text \<open>
  C3. A move \<open>moveSteps(n, d)\<close> with \<open>d\<close> 0 or 1 whose switch on the side of travel (the top
  switch for \<open>d = 1\<close>, the bottom switch for \<open>d = 0\<close>) reads 0 at the check before the first
  pulse issues no pulse and leaves the position counter as it was.
\<close>

theorem moveSteps_limit_asserted:
  "d = 0 \<or> d = 1 \<Longrightarrow>
   line_in s (if d = 1 then limit_switch_top else limit_switch_bottom)
     (reads s (if d = 1 then limit_switch_top else limit_switch_bottom)) = 0 \<Longrightarrow>
   pulses (trace (moveSteps n d s)) = pulses (trace s)
   \<and> currentStepCount (moveSteps n d s) = currentStepCount s"
proof -
  assume d: "d = 0 \<or> d = 1"
    and a: "line_in s (if d = 1 then limit_switch_top else limit_switch_bottom)
     (reads s (if d = 1 then limit_switch_top else limit_switch_bottom)) = 0"
  define s1 where "s1 = gpiod_line_set_value dir_signal d (enable ((emit Lock s)\<lparr>isMoving := True\<rparr>))"
  have s1: "currentStepCount s1 = currentStepCount s" "pulses (trace s1) = pulses (trace s)"
    by (simp_all add: s1_def enable_def)
  have "(d = 1 \<and> line_in s1 limit_switch_top (reads s1 limit_switch_top) = 0)
   \<or> (d = 0 \<and> line_in s1 limit_switch_bottom (reads s1 limit_switch_bottom) = 0)"
    using d a by (auto simp: s1_def enable_def)
  from loop_stops_at_once [OF this, of n "stepDelay s" 0] s1
  show ?thesis
    by (simp add: moveSteps_loop_form disable_def s1_def [symmetric])
qed

theorem moveSteps_limit_asserted_witness:
  "((1::int) = 0 \<or> (1::int) = 1)
   \<and> line_in top_asserted_stepper limit_switch_top (reads top_asserted_stepper limit_switch_top) = 0
   \<and> pulses (trace (moveSteps 5 1 top_asserted_stepper)) = pulses (trace top_asserted_stepper)
   \<and> currentStepCount (moveSteps 5 1 top_asserted_stepper) = currentStepCount top_asserted_stepper"
  using moveSteps_limit_asserted [of 1 top_asserted_stepper 5]
  by (simp add: top_asserted_stepper_def)

text \<open>
  C2. For every \<open>n \<ge> 0\<close> and every value of the position counter, \<open>moveSteps(n, 1)\<close> followed
  by \<open>moveSteps(n, 0)\<close>, with neither limit switch ever reading 0, brings the position
  counter back to the value it had before the first call.
\<close>

theorem moveSteps_round_trip:
  "0 \<le> n \<Longrightarrow> \<forall>k. line_in s limit_switch_top k \<noteq> 0 \<Longrightarrow>
   \<forall>k. line_in s limit_switch_bottom k \<noteq> 0 \<Longrightarrow>
   currentStepCount (moveSteps n 0 (moveSteps n 1 s)) = currentStepCount s"
proof -
  assume n: "0 \<le> n" and top: "\<forall>k. line_in s limit_switch_top k \<noteq> 0"
    and bottom: "\<forall>k. line_in s limit_switch_bottom k \<noteq> 0"
  define s1 where "s1 = gpiod_line_set_value dir_signal 1 (enable ((emit Lock s)\<lparr>isMoving := True\<rparr>))"
  define t where "t = moveSteps n 1 s"
  define t1 where "t1 = gpiod_line_set_value dir_signal 0 (enable ((emit Lock t)\<lparr>isMoving := True\<rparr>))"
  have "currentStepCount (internalMoveSteps_loop n 1 (stepDelay s) 0 s1) =
      currentStepCount s1 + (if (1::int) = 0 then - 1 else 1) * word_of_int (max 0 (n - 0))"
    using top by (intro loop_no_stop [THEN conjunct1]) (simp_all add: s1_def enable_def)
  then have fwd: "currentStepCount t = currentStepCount s + word_of_int n"
    using n by (simp add: t_def moveSteps_loop_form disable_def s1_def [symmetric])
      (simp add: s1_def enable_def)
  have "line_in t = line_in s"
    by (simp add: t_def moveSteps_loop_form disable_def loop_frame enable_def)
  then have "\<forall>k. line_in t1 limit_switch_bottom k \<noteq> 0"
    using bottom by (simp add: t1_def enable_def)
  then have "currentStepCount (internalMoveSteps_loop n 0 (stepDelay t) 0 t1) =
      currentStepCount t1 + (if (0::int) = 0 then - 1 else 1) * word_of_int (max 0 (n - 0))"
    by (intro loop_no_stop [THEN conjunct1]) simp_all
  then have "currentStepCount (moveSteps n 0 t) = currentStepCount t - word_of_int n"
    using n by (simp add: moveSteps_loop_form disable_def t1_def [symmetric])
      (simp add: t1_def enable_def)
  with fwd show ?thesis by (simp add: t_def)
qed

theorem moveSteps_round_trip_witness:
  "(0::int) \<le> 3
   \<and> (\<forall>k. line_in clear_stepper limit_switch_top k \<noteq> 0)
   \<and> (\<forall>k. line_in clear_stepper limit_switch_bottom k \<noteq> 0)
   \<and> currentStepCount (moveSteps 3 0 (moveSteps 3 1 clear_stepper)) = currentStepCount clear_stepper"
  using moveSteps_round_trip [of 3 clear_stepper]
  by (simp add: clear_stepper_def)

section \<open>Homing\<close>

text \<open>
  C4. Whatever the position counter is before the call: if the bottom switch at some read
  stops reading 1, \<open>homeMotor\<close> returns; its pulse loop returns with the counter as it was
  on entry, and the call ends with the counter at 0 and the enable line at 0 (the motor
  disabled).
\<close>

theorem homeMotor_zeroes_counter:
  "line_in s limit_switch_bottom (reads s limit_switch_bottom + k) \<noteq> 1 \<Longrightarrow>
   \<exists>s1 s'. homeMotor_loop (stepDelay s) (gpiod_line_set_value dir_signal 0 (enable s)) = Some s1
     \<and> currentStepCount s1 = currentStepCount s
     \<and> homeMotor s = Some s'
     \<and> currentStepCount s' = 0
     \<and> line_out s' enable_signal = 0"
proof -
  assume a: "line_in s limit_switch_bottom (reads s limit_switch_bottom + k) \<noteq> 1"
  define s0 where "s0 = gpiod_line_set_value dir_signal 0 (enable s)"
  have "line_in s0 limit_switch_bottom (reads s0 limit_switch_bottom + k) \<noteq> 1"
    using a by (simp add: s0_def enable_def)
  from homeMotor_loop_returns [OF this, of "stepDelay s"] obtain s1 where
    s1: "homeMotor_loop (stepDelay s) s0 = Some s1" "currentStepCount s1 = currentStepCount s0"
    by blast
  have "homeMotor s = Some (disable (s1\<lparr>currentStepCount := 0\<rparr>))"
    using s1 by (simp add: homeMotor_def Let_def s0_def enable_def)
  then show ?thesis
    using s1 by (simp add: s0_def [symmetric] disable_def) (simp add: s0_def enable_def)
qed

theorem homeMotor_zeroes_counter_witness:
  "line_in homing_stepper limit_switch_bottom (reads homing_stepper limit_switch_bottom + 2) \<noteq> 1
   \<and> (\<exists>s1 s'. homeMotor_loop (stepDelay homing_stepper)
         (gpiod_line_set_value dir_signal 0 (enable homing_stepper)) = Some s1
     \<and> currentStepCount s1 = currentStepCount homing_stepper
     \<and> homeMotor homing_stepper = Some s'
     \<and> currentStepCount s' = 0
     \<and> line_out s' enable_signal = 0)"
proof -
  have h: "line_in homing_stepper limit_switch_bottom (reads homing_stepper limit_switch_bottom + 2) \<noteq> 1"
    by (simp add: homing_stepper_def PiStepper_init_def disable_def gpiod_line_request_input_def
        gpiod_line_request_output_def)
  from h homeMotor_zeroes_counter [OF h] show ?thesis by blast
qed

section \<open>The mutex\<close>

text \<open>
  C5. \<open>homeMotor\<close> never locks \<open>gpioMutex\<close>. Whenever it returns, what it has done is: the
  enable line to 1, the direction line to 0, some number of pulses, the enable line to 0;
  the number of \<open>Lock\<close> events in the trace is the same after the call as before. A call
  of \<open>moveSteps\<close> adds exactly one \<open>Lock\<close>. So the writes of \<open>homeMotor\<close> to the lines are
  not made under the mutex that \<open>moveSteps\<close>, \<open>stopMovement\<close> and \<open>emergencyStop\<close> hold
  while they write to them.
\<close>

theorem homeMotor_takes_no_lock:
  "homeMotor s = Some s' \<Longrightarrow>
   (\<exists>k. trace s' = trace s @ [SetValue enable_signal 1, SetValue dir_signal 0]
       @ concat (replicate k (pulse_events (to_useconds (fdiv (stepDelay s) (Num 2)))))
       @ [SetValue enable_signal 0])
   \<and> count_list (trace s') Lock = count_list (trace s) Lock
   \<and> count_list (trace (moveSteps n d s)) Lock = Suc (count_list (trace s) Lock)"
proof -
  assume h: "homeMotor s = Some s'"
  define s1 where "s1 = gpiod_line_set_value dir_signal 0 (enable s)"
  from h obtain s2 where s2: "homeMotor_loop (stepDelay s) s1 = Some s2"
    and s': "s' = disable (s2\<lparr>currentStepCount := 0\<rparr>)"
    by (auto simp: homeMotor_def Let_def s1_def enable_def split: option.splits)
  from homeMotor_loop_trace [OF s2] obtain k where
    "trace s2 = trace s1 @ concat (replicate k (pulse_events (to_useconds (fdiv (stepDelay s) (Num 2)))))"
    by blast
  then have tr: "trace s' = trace s @ [SetValue enable_signal 1, SetValue dir_signal 0]
       @ concat (replicate k (pulse_events (to_useconds (fdiv (stepDelay s) (Num 2)))))
       @ [SetValue enable_signal 0]"
    by (simp add: s' disable_def s1_def enable_def)
  then have "count_list (trace s') Lock = count_list (trace s) Lock"
    by simp
  with tr moveSteps_locks_once [of n d s] show ?thesis by blast
qed

theorem homeMotor_takes_no_lock_witness:
  "\<exists>s'. homeMotor homing_stepper = Some s'
     \<and> (\<exists>k. trace s' = trace homing_stepper @ [SetValue enable_signal 1, SetValue dir_signal 0]
       @ concat (replicate k (pulse_events (to_useconds (fdiv (stepDelay homing_stepper) (Num 2)))))
       @ [SetValue enable_signal 0])
     \<and> count_list (trace s') Lock = count_list (trace homing_stepper) Lock
     \<and> count_list (trace (moveSteps 2 0 homing_stepper)) Lock =
         Suc (count_list (trace homing_stepper) Lock)"
proof -
  have "\<exists>s'. homeMotor homing_stepper = Some s'"
    by (simp add: homeMotor_def homeMotor_loop.simps Let_def homing_stepper_def enable_def)
  then obtain s' where s': "homeMotor homing_stepper = Some s'" ..
  from s' homeMotor_takes_no_lock [OF s', of 2 0] show ?thesis by blast
qed

section \<open>Emergency stop\<close>

text \<open>
  C9. Whatever the state before the call, \<open>emergencyStop\<close> leaves the enable line at 0
  (the motor disabled), \<open>_isMoving\<close> false (the motion state Idle) and the position
  counter at 0.
\<close>

theorem emergencyStop_resets:
  "line_out (emergencyStop s) enable_signal = 0
   \<and> \<not> isMoving (emergencyStop s)
   \<and> currentStepCount (emergencyStop s) = 0"
  by (simp add: emergencyStop_def cout_def disable_def)

section \<open>Rounding\<close>

text \<open>
  The exponent that \<open>ilog2\<close> computes is the right one, so that \<open>round_to\<close> is off by at
  most half a unit in the last place: a relative error of \<open>2\<^sup>-\<^sup>2\<^sup>4\<close> in binary32 and of
  \<open>2\<^sup>-\<^sup>5\<^sup>3\<close> in binary64, for a number in the range of the normal numbers.
\<close>

lemma pow2_powr: "pow2 e = 2 powr real_of_int e"
  by (simp add: pow2_def powr_real_of_int field_simps)

lemma pow2_pos [simp]: "0 < pow2 e"
  by (simp add: pow2_powr)

lemma pow2_add: "pow2 (a + b) = pow2 a * pow2 b"
  by (simp add: pow2_powr powr_add)

lemma pow2_mono: "a \<le> b \<Longrightarrow> pow2 a \<le> pow2 b"
  by (simp add: pow2_powr)

lemma pow2_less_iff: "pow2 a < pow2 b \<longleftrightarrow> a < b"
  by (simp add: pow2_powr)

lemma pow2_nat: "pow2 (int n) = 2 ^ n"
  by (simp add: pow2_def)

lemma log2floor_bounds:
  "1 \<le> n \<Longrightarrow> 0 \<le> log2floor n \<and> 2 ^ nat (log2floor n) \<le> n \<and> n < 2 ^ nat (log2floor n + 1)"
proof (induction n rule: log2floor.induct)
  case (1 n)
  show ?case
  proof (cases "n < 2")
    case True
    with "1.prems" have "n = 1" by simp
    then show ?thesis by (simp add: log2floor.simps)
  next
    case False
    then have h: "1 \<le> n div 2" by simp
    from "1.IH" [OF False h]
    have ih: "0 \<le> log2floor (n div 2)" "2 ^ nat (log2floor (n div 2)) \<le> n div 2"
      "n div 2 < 2 ^ nat (log2floor (n div 2) + 1)"
      by simp_all
    have e: "log2floor n = 1 + log2floor (n div 2)"
      using False by (simp add: log2floor.simps [of n])
    have n1: "nat (1 + log2floor (n div 2)) = Suc (nat (log2floor (n div 2)))"
      using ih(1) by simp
    have n2: "nat (1 + log2floor (n div 2) + 1) = Suc (nat (log2floor (n div 2) + 1))"
      using ih(1) by simp
    have "2 * 2 ^ nat (log2floor (n div 2)) \<le> n"
      using ih(2) by linarith
    moreover have "n < 2 * 2 ^ nat (log2floor (n div 2) + 1)"
      using ih(3) by linarith
    ultimately show ?thesis
      unfolding e n1 n2 using ih(1) by simp
  qed
qed

lemma pow_le_real: "(2::int) ^ k \<le> n \<Longrightarrow> (2::real) ^ k \<le> real_of_int n"
proof -
  assume "(2::int) ^ k \<le> n"
  then have "real_of_int (2 ^ k) \<le> real_of_int n" by (simp only: of_int_le_iff)
  then show ?thesis by simp
qed

lemma less_pow_real: "n < (2::int) ^ k \<Longrightarrow> real_of_int n + 1 \<le> (2::real) ^ k"
proof -
  assume "n < (2::int) ^ k"
  then have "n + 1 \<le> 2 ^ k" by simp
  then have "real_of_int (n + 1) \<le> real_of_int (2 ^ k)" by (simp only: of_int_le_iff)
  then show ?thesis by simp
qed

lemma ilog2_bounds:
  assumes "0 < x"
  shows "pow2 (ilog2 x) \<le> x" and "x < pow2 (ilog2 x + 1)"
proof -
  have "pow2 (ilog2 x) \<le> x \<and> x < pow2 (ilog2 x + 1)"
  proof (cases "1 \<le> x")
    case True
    then have n: "1 \<le> \<lfloor>x\<rfloor>" by simp
    from log2floor_bounds [OF n]
    have b: "0 \<le> log2floor \<lfloor>x\<rfloor>" "2 ^ nat (log2floor \<lfloor>x\<rfloor>) \<le> \<lfloor>x\<rfloor>"
      "\<lfloor>x\<rfloor> < 2 ^ nat (log2floor \<lfloor>x\<rfloor> + 1)"
      by simp_all
    have e: "ilog2 x = log2floor \<lfloor>x\<rfloor>"
      using True by (simp add: ilog2_def)
    have p1: "pow2 (log2floor \<lfloor>x\<rfloor>) = 2 ^ nat (log2floor \<lfloor>x\<rfloor>)"
      "pow2 (log2floor \<lfloor>x\<rfloor> + 1) = 2 ^ nat (log2floor \<lfloor>x\<rfloor> + 1)"
      using b(1) by (simp_all add: pow2_def)
    have lo: "pow2 (log2floor \<lfloor>x\<rfloor>) \<le> x"
      unfolding p1 using pow_le_real [OF b(2)] of_int_floor_le [of x] by linarith
    have hi: "x < pow2 (log2floor \<lfloor>x\<rfloor> + 1)"
      unfolding p1 using less_pow_real [OF b(3)] real_of_int_floor_add_one_gt [of x] by linarith
    from lo hi show ?thesis unfolding e by simp
  next
    case False
    define m where "m = \<lfloor>1 / x\<rfloor>"
    define j where "j = log2floor m"
    have x1: "x < 1" using False by simp
    then have "1 \<le> 1 / x" using assms by simp
    then have m1: "1 \<le> m" by (simp add: m_def)
    from log2floor_bounds [OF m1]
    have b: "0 \<le> j" "2 ^ nat j \<le> m" "m < 2 ^ nat (j + 1)"
      by (simp_all add: j_def)
    have "2 ^ nat j \<le> 1 / x"
      using pow_le_real [OF b(2)] of_int_floor_le [of "1 / x"] unfolding m_def by linarith
    then have up: "x * 2 ^ nat j \<le> 1"
      using assms by (simp add: field_simps)
    have "1 / x < 2 ^ nat (j + 1)"
      using less_pow_real [OF b(3)] real_of_int_floor_add_one_gt [of "1 / x"]
      unfolding m_def by linarith
    then have lo: "1 < x * 2 ^ nat (j + 1)"
      using assms by (simp add: field_simps)
    have pj: "pow2 j = 2 ^ nat j" "pow2 (- j) = 1 / 2 ^ nat j"
      using b(1) by (auto simp: pow2_def)
    have pj1: "pow2 (- j - 1) = 1 / 2 ^ nat (j + 1)"
      using b(1) by (simp add: pow2_def)
    have pj2: "pow2 (- j - 1 + 1) = 1 / 2 ^ nat j"
      using pj(2) by simp
    have pj3: "pow2 (- j + 1) = 2 / 2 ^ nat j"
      using pow2_add [of "- j" 1] pj(2) by (simp add: pow2_def)
    show ?thesis
    proof (cases "x * pow2 j = 1")
      case True
      then have e: "ilog2 x = - j"
        using False by (simp add: ilog2_def Let_def m_def j_def)
      from True have "x = 1 / 2 ^ nat j"
        unfolding pj by (simp add: field_simps)
      moreover have "(1::real) / 2 ^ nat j < 2 / 2 ^ nat j"
        by (simp add: divide_strict_right_mono)
      ultimately show ?thesis unfolding e pj pj3 by simp
    next
      case ne: False
      then have e: "ilog2 x = - j - 1"
        using False by (simp add: ilog2_def Let_def m_def j_def)
      from ne up have "x * 2 ^ nat j < 1"
        unfolding pj by simp
      then have hi: "x < 1 / 2 ^ nat j"
        by (simp add: field_simps)
      from lo have "1 / 2 ^ nat (j + 1) < x"
        by (simp add: field_simps)
      with hi show ?thesis unfolding e pj1 pj2 by simp
    qed
  qed
  then show "pow2 (ilog2 x) \<le> x" and "x < pow2 (ilog2 x + 1)" by simp_all
qed

lemma rne_near: "\<bar>real_of_int (rne y) - y\<bar> \<le> 1 / 2"
proof -
  have "real_of_int \<lfloor>y\<rfloor> \<le> y" "y < real_of_int \<lfloor>y\<rfloor> + 1"
    by linarith+
  then show ?thesis
    unfolding rne_def by (auto simp: abs_le_iff)
qed

lemma rne_of_int [simp]: "rne (real_of_int k) = k"
  by (simp add: rne_def)

lemma ilog2_ge:
  assumes "pow2 emin \<le> x"
  shows "emin \<le> ilog2 x"
proof -
  have "0 < x" using assms pow2_pos [of emin] by linarith
  from ilog2_bounds(2) [OF this] assms have "pow2 emin < pow2 (ilog2 x + 1)"
    by linarith
  then show ?thesis by (simp add: pow2_less_iff)
qed

lemma round_to_error:
  assumes "pow2 emin \<le> \<bar>x\<bar>"
  shows "\<bar>round_to p emin x - x\<bar> \<le> pow2 (- p) * \<bar>x\<bar>"
proof -
  have "0 < \<bar>x\<bar>"
    using assms pow2_pos [of emin] by linarith
  then have x0: "x \<noteq> 0" "0 < \<bar>x\<bar>"
    by auto
  define e where "e = ilog2 \<bar>x\<bar>"
  define ulp where "ulp = pow2 (e - p + 1)"
  have "emin \<le> e" unfolding e_def using assms by (rule ilog2_ge)
  then have r: "round_to p emin x = real_of_int (rne (x / ulp)) * ulp"
    using x0 by (simp add: round_to_def Let_def e_def ulp_def max_def)
  have up: "0 < ulp" by (simp add: ulp_def)
  have "real_of_int (rne (x / ulp)) * ulp - x = (real_of_int (rne (x / ulp)) - x / ulp) * ulp"
    using up by (simp add: left_diff_distrib)
  then have "\<bar>real_of_int (rne (x / ulp)) * ulp - x\<bar> = \<bar>real_of_int (rne (x / ulp)) - x / ulp\<bar> * ulp"
    using up by (simp add: abs_mult)
  also have "\<dots> \<le> 1 / 2 * ulp"
    using rne_near [of "x / ulp"] up by (intro mult_right_mono) simp_all
  also have "\<dots> = pow2 (- p) * pow2 e"
    using pow2_add [of "e - p" 1] pow2_add [of "- p" e] by (simp add: ulp_def pow2_def [of 1] algebra_simps)
  also have "\<dots> \<le> pow2 (- p) * \<bar>x\<bar>"
    using ilog2_bounds(1) [OF x0(2)] by (intro mult_left_mono) (simp_all add: e_def less_imp_le)
  finally show ?thesis unfolding r .
qed

lemma binary32_rel:
  assumes "1 / 2 ^ 126 \<le> \<bar>x\<bar>" and "\<bar>x\<bar> \<le> 2 ^ 127"
  shows "\<exists>r. binary32 x = Num r \<and> \<bar>r - x\<bar> \<le> \<bar>x\<bar> / 2 ^ 24"
proof -
  have "pow2 (- 126) \<le> \<bar>x\<bar>" using assms(1) by (simp add: pow2_def)
  from round_to_error [OF this, of 24]
  have e: "\<bar>round_to 24 (- 126) x - x\<bar> \<le> \<bar>x\<bar> / 2 ^ 24"
    by (simp add: pow2_def)
  then have "\<bar>round_to 24 (- 126) x\<bar> \<le> \<bar>x\<bar> + \<bar>x\<bar> / 2 ^ 24"
    by linarith
  also have "\<dots> \<le> 2 ^ 127 + 2 ^ 127 / 2 ^ 24"
    using assms(2) by (intro add_mono divide_right_mono) simp_all
  also have "\<dots> < 2 ^ 128" by simp
  finally have "binary32 x = Num (round_to 24 (- 126) x)"
    by (simp add: binary32_def)
  with e show ?thesis by blast
qed

lemma binary64_rel:
  assumes "1 / 2 ^ 1022 \<le> \<bar>x\<bar>" and "\<bar>x\<bar> \<le> 2 ^ 1023"
  shows "\<exists>r. binary64 x = Num r \<and> \<bar>r - x\<bar> \<le> \<bar>x\<bar> / 2 ^ 53"
proof -
  have "pow2 (- 1022) \<le> \<bar>x\<bar>" using assms(1) by (simp add: pow2_def)
  from round_to_error [OF this, of 53]
  have e: "\<bar>round_to 53 (- 1022) x - x\<bar> \<le> \<bar>x\<bar> / 2 ^ 53"
    by (simp add: pow2_def)
  then have "\<bar>round_to 53 (- 1022) x\<bar> \<le> \<bar>x\<bar> + \<bar>x\<bar> / 2 ^ 53"
    by linarith
  also have "\<dots> \<le> 2 ^ 1023 + 2 ^ 1023 / 2 ^ 53"
    using assms(2) by (intro add_mono divide_right_mono) simp_all
  also have "\<dots> < 2 ^ 1024" by simp
  finally have "binary64 x = Num (round_to 53 (- 1022) x)"
    by (simp add: binary64_def)
  with e show ?thesis by blast
qed

lemma binary32_zero [simp]: "binary32 0 = Num 0"
  by (simp add: binary32_def round_to_def)

lemma binary64_zero [simp]: "binary64 0 = Num 0"
  by (simp add: binary64_def round_to_def)

text \<open>An integer of at most 24 bits is a binary32 value.\<close>

lemma binary32_of_int:
  assumes "\<bar>n\<bar> \<le> 2 ^ 24"
  shows "binary32 (real_of_int n) = Num (real_of_int n)"
proof (cases "n = 0")
  case True
  then show ?thesis by simp
next
  case False
  define x where "x = real_of_int n"
  define e where "e = ilog2 \<bar>x\<bar>"
  have x1: "1 \<le> \<bar>x\<bar>" using False by (simp add: x_def)
  then have x0: "0 < \<bar>x\<bar>" "x \<noteq> 0" by auto
  have "pow2 0 \<le> \<bar>x\<bar>" using x1 by (simp add: pow2_def)
  then have e0: "0 \<le> e" unfolding e_def by (rule ilog2_ge)
  have "\<bar>x\<bar> \<le> 2 ^ 24"
    using assms unfolding x_def by (metis of_int_abs of_int_le_iff of_int_numeral of_int_power)
  with ilog2_bounds(1) [OF x0(1)] have "pow2 e \<le> pow2 24"
    by (simp add: e_def pow2_def [of 24])
  then have e24: "e \<le> 24"
    using pow2_less_iff [of 24 e] by (simp add: not_less [symmetric])
  define k where "k = nat (24 - e)"
  have "pow2 (e - 23) * pow2 (int k) = pow2 1"
    using e24 pow2_add [of "e - 23" "int k"] by (simp add: k_def)
  then have ulp: "pow2 (max e (- 126) - 24 + 1) * 2 ^ k = 2"
    using e0 by (simp add: max_def pow2_nat pow2_def [of 1])
  define ulp where "ulp = pow2 (max e (- 126) - 24 + 1)"
  have up: "0 < ulp" by (simp add: ulp_def)
  have kk: "k = 0 \<Longrightarrow> even n"
  proof -
    assume "k = 0"
    then have "e = 24" using e24 by (simp add: k_def)
    with ilog2_bounds(1) [OF x0(1)] \<open>\<bar>x\<bar> \<le> 2 ^ 24\<close> have "\<bar>x\<bar> = 2 ^ 24"
      by (simp add: e_def pow2_def)
    then have "\<bar>n\<bar> = 2 ^ 24"
      unfolding x_def by (metis of_int_abs of_int_eq_iff of_int_numeral of_int_power)
    then have "n = 2 * 2 ^ 23 \<or> n = 2 * (- (2 ^ 23))" by (auto simp: abs_if split: if_splits)
    then show "even n" by (auto simp del: power_numeral)
  qed
  have "\<exists>m. x / ulp = real_of_int m"
  proof (cases "k = 0")
    case True
    with kk obtain h where h: "n = 2 * h" by (auto elim: evenE)
    from ulp True have "ulp = 2" by (simp add: ulp_def)
    then have "x / ulp = real_of_int h" by (simp add: x_def h)
    then show ?thesis ..
  next
    case False
    then obtain k' where k': "k = Suc k'" by (cases k) auto
    from ulp have "ulp * 2 ^ k' = 1" by (simp add: ulp_def k')
    then have "ulp = 1 / 2 ^ k'" by (simp add: field_simps)
    then have "x / ulp = real_of_int (n * 2 ^ k')" by (simp add: x_def)
    then show ?thesis ..
  qed
  then obtain m where m: "x / ulp = real_of_int m" ..
  then have xm: "x = real_of_int m * ulp" using up by (simp add: field_simps)
  have "round_to 24 (- 126) x = real_of_int (rne (x / ulp)) * ulp"
    using x0 unfolding round_to_def Let_def e_def ulp_def by simp
  then have "round_to 24 (- 126) x = x"
    unfolding m using xm by simp
  moreover have "\<bar>x\<bar> < 2 ^ 128"
    using \<open>\<bar>x\<bar> \<le> 2 ^ 24\<close> by simp
  ultimately show ?thesis
    by (simp add: binary32_def x_def)
qed

text \<open>The definitions that evaluate an operation on given numbers.\<close>

lemmas float_eval = binary32_def binary64_def round_to_def ilog2_def log2floor.simps pow2_def
  rne_def Let_def round32_def round64_def fmul_def fdiv_def ddiv_def float_of_int_def int32_def

lemma int32_id: "- (2 ^ 31) \<le> z \<Longrightarrow> z < 2 ^ 31 \<Longrightarrow> int32 z = z"
  by (simp add: int32_def)

lemma float_of_int_exact: "\<bar>n\<bar> \<le> 2 ^ 24 \<Longrightarrow> float_of_int n = Num (real_of_int n)"
  by (simp add: float_of_int_def binary32_of_int)

lemma fmul_Num: "fmul (Num a) (Num b) = binary32 (a * b)"
  by (simp add: fmul_def round32_def)

lemma fdiv_Num: "b \<noteq> 0 \<Longrightarrow> fdiv (Num a) (Num b) = binary32 (a / b)"
  by (simp add: fdiv_def round32_def)

text \<open>A number below \<open>2\<^sup>1\<^sup>2\<^sup>7\<close> does not overflow.\<close>

lemma round_to_abs_error:
  assumes "x \<noteq> 0"
  shows "\<bar>round_to p emin x - x\<bar> \<le> pow2 (max (ilog2 \<bar>x\<bar>) emin - p)"
proof -
  define ulp where "ulp = pow2 (max (ilog2 \<bar>x\<bar>) emin - p + 1)"
  have r: "round_to p emin x = real_of_int (rne (x / ulp)) * ulp"
    using assms by (simp add: round_to_def Let_def ulp_def)
  have up: "0 < ulp" by (simp add: ulp_def)
  have "real_of_int (rne (x / ulp)) * ulp - x = (real_of_int (rne (x / ulp)) - x / ulp) * ulp"
    using up by (simp add: left_diff_distrib)
  then have "\<bar>real_of_int (rne (x / ulp)) * ulp - x\<bar> = \<bar>real_of_int (rne (x / ulp)) - x / ulp\<bar> * ulp"
    using up by (simp add: abs_mult)
  also have "\<dots> \<le> 1 / 2 * ulp"
    using rne_near [of "x / ulp"] up by (intro mult_right_mono) simp_all
  also have "\<dots> = pow2 (max (ilog2 \<bar>x\<bar>) emin - p)"
    using pow2_add [of "max (ilog2 \<bar>x\<bar>) emin - p" 1]
    by (simp add: ulp_def pow2_def [of 1] algebra_simps)
  finally show ?thesis unfolding r .
qed

lemma binary32_finite:
  assumes "\<bar>x\<bar> \<le> 2 ^ 127"
  shows "\<exists>r. binary32 x = Num r"
proof (cases "x = 0")
  case True
  then show ?thesis by simp
next
  case False
  then have x0: "0 < \<bar>x\<bar>" by simp
  have "pow2 (ilog2 \<bar>x\<bar>) \<le> pow2 127"
    using ilog2_bounds(1) [OF x0] assms by (simp add: pow2_def [of 127])
  then have "ilog2 \<bar>x\<bar> \<le> 127"
    using pow2_less_iff [of 127 "ilog2 \<bar>x\<bar>"] by (simp add: not_less [symmetric])
  then have "max (ilog2 \<bar>x\<bar>) (- 126) - 24 \<le> 103"
    by simp
  then have "pow2 (max (ilog2 \<bar>x\<bar>) (- 126) - 24) \<le> pow2 103"
    by (rule pow2_mono)
  with round_to_abs_error [OF False, of 24 "- 126"]
  have "\<bar>round_to 24 (- 126) x - x\<bar> \<le> 2 ^ 103"
    by (simp add: pow2_def [of 103])
  then have "\<bar>round_to 24 (- 126) x\<bar> \<le> 2 ^ 127 + 2 ^ 103"
    using assms by linarith
  also have "\<dots> < (2 ^ 128 :: real)" by simp
  finally show ?thesis by (simp add: binary32_def)
qed

lemma float_of_int_finite:
  assumes "\<bar>n\<bar> \<le> 2 ^ 31"
  shows "\<exists>r. float_of_int n = Num r \<and> \<bar>r\<bar> \<le> 2 ^ 32"
proof (cases "n = 0")
  case True
  then show ?thesis by (simp add: float_of_int_def)
next
  case False
  define x where "x = real_of_int n"
  have "\<bar>x\<bar> = real_of_int \<bar>n\<bar>" by (simp add: x_def)
  moreover have "1 \<le> \<bar>n\<bar>" using False by simp
  moreover have "real_of_int \<bar>n\<bar> \<le> real_of_int (2 ^ 31)"
    using assms by (simp only: of_int_le_iff)
  ultimately have x: "1 \<le> \<bar>x\<bar>" "\<bar>x\<bar> \<le> 2147483648"
    by simp_all
  have "1 / 2 ^ 126 \<le> \<bar>x\<bar>" "\<bar>x\<bar> \<le> 2 ^ 127"
    using x by simp_all
  from binary32_rel [OF this] obtain r where
    r: "binary32 x = Num r" "\<bar>r - x\<bar> \<le> \<bar>x\<bar> / 2 ^ 24"
    by blast
  have "\<bar>r - x\<bar> \<le> \<bar>x\<bar> / 16777216"
    using r(2) by simp
  then have "\<bar>r\<bar> \<le> 4294967296"
    using x by linarith
  then show ?thesis
    using r(1) by (simp add: float_of_int_def x_def)
qed

section \<open>Runs of the pulse loop\<close>

text \<open>
  Every iteration of the loop reads the top switch and then the bottom switch. A run of
  the loop is some number \<open>k\<close> of pulses, all with the same sleeps, followed by at most one
  message; \<open>k\<close> is the number of steps asked for unless the switch on the side of travel
  reads 0.
\<close>

lemma body_reads:
  "internalMoveSteps_body direction d s = Inr s' \<Longrightarrow>
     reads s' limit_switch_top = Suc (reads s limit_switch_top)
     \<and> reads s' limit_switch_bottom = Suc (reads s limit_switch_bottom)"
  by (auto simp: internalMoveSteps_body_def Let_def cout_def split_beta split: if_splits)

lemma loop_no_stop_reads:
  "(direction = 1 \<longrightarrow> (\<forall>k. line_in s limit_switch_top k \<noteq> 0)) \<Longrightarrow>
   (direction = 0 \<longrightarrow> (\<forall>k. line_in s limit_switch_bottom k \<noteq> 0)) \<Longrightarrow>
   reads (internalMoveSteps_loop steps direction d i s) limit_switch_top =
     reads s limit_switch_top + nat (steps - i)
   \<and> reads (internalMoveSteps_loop steps direction d i s) limit_switch_bottom =
     reads s limit_switch_bottom + nat (steps - i)"
proof (induction steps direction d i s rule: internalMoveSteps_loop.induct)
  case (1 steps direction d i s)
  show ?case
  proof (cases "i < steps")
    case False
    then show ?thesis by (simp add: internalMoveSteps_loop.simps)
  next
    case True
    show ?thesis
    proof (cases "internalMoveSteps_body direction d s")
      case (Inl s')
      with body_Inl [OF Inl] "1.prems" show ?thesis by auto
    next
      case (Inr s')
      have n: "nat (steps - i) = Suc (nat (steps - (i + 1)))"
        using True by simp
      from body_Inr [OF Inr] "1.prems"
      have ih: "reads (internalMoveSteps_loop steps direction d (i + 1) s') limit_switch_top =
            reads s' limit_switch_top + nat (steps - (i + 1))
          \<and> reads (internalMoveSteps_loop steps direction d (i + 1) s') limit_switch_bottom =
            reads s' limit_switch_bottom + nat (steps - (i + 1))"
        by (intro "1.IH" [OF True Inr]) simp_all
      have unf: "internalMoveSteps_loop steps direction d i s =
          internalMoveSteps_loop steps direction d (i + 1) s'"
        using True Inr by (simp add: internalMoveSteps_loop.simps [of steps direction d i s])
      show ?thesis
        unfolding unf n using ih body_reads [OF Inr] by simp
    qed
  qed
qed

lemma loop_run:
  "\<exists>k msg. trace (internalMoveSteps_loop steps direction d i s) =
      trace s @ concat (replicate k (pulse_events (to_useconds (fdiv d (Num 2))))) @ msg
    \<and> (msg = [] \<or> msg = [Cout ''Top limit switch triggered'']
        \<or> msg = [Cout ''Bottom limit switch triggered''])
    \<and> currentStepCount (internalMoveSteps_loop steps direction d i s) =
        (if direction = 0 then currentStepCount s - of_nat k else currentStepCount s + of_nat k)
    \<and> k \<le> nat (steps - i)
    \<and> ((direction = 1 \<longrightarrow> (\<forall>j. line_in s limit_switch_top j \<noteq> 0))
        \<and> (direction = 0 \<longrightarrow> (\<forall>j. line_in s limit_switch_bottom j \<noteq> 0))
        \<longrightarrow> k = nat (steps - i) \<and> msg = [])"
proof (induction steps direction d i s rule: internalMoveSteps_loop.induct)
  case (1 steps direction d i s)
  let ?P = "pulse_events (to_useconds (fdiv d (Num 2)))"
  show ?case
  proof (cases "i < steps")
    case False
    then have "internalMoveSteps_loop steps direction d i s = s"
      by (simp add: internalMoveSteps_loop.simps)
    then show ?thesis
      using False by (intro exI [of _ 0] exI [of _ "[]"]) simp
  next
    case True
    show ?thesis
    proof (cases "internalMoveSteps_body direction d s")
      case (Inl s')
      then have unf: "internalMoveSteps_loop steps direction d i s = s'"
        using True by (simp add: internalMoveSteps_loop.simps [of steps direction d i s])
      from body_trace(1) [OF Inl] obtain msg where
        m: "trace s' = trace s @ concat (replicate 0 ?P) @ msg"
        "msg = [Cout ''Top limit switch triggered''] \<or> msg = [Cout ''Bottom limit switch triggered'']"
        by auto
      show ?thesis
        unfolding unf using m body_Inl [OF Inl]
        by (intro exI [of _ 0] exI [of _ msg]) auto
    next
      case (Inr s')
      then have unf: "internalMoveSteps_loop steps direction d i s =
          internalMoveSteps_loop steps direction d (i + 1) s'"
        using True by (simp add: internalMoveSteps_loop.simps [of steps direction d i s])
      have n: "nat (steps - i) = Suc (nat (steps - (i + 1)))"
        using True by simp
      from "1.IH" [OF True Inr] obtain k msg where
        ih: "trace (internalMoveSteps_loop steps direction d (i + 1) s') =
          trace s' @ concat (replicate k ?P) @ msg"
        "msg = [] \<or> msg = [Cout ''Top limit switch triggered'']
          \<or> msg = [Cout ''Bottom limit switch triggered'']"
        "currentStepCount (internalMoveSteps_loop steps direction d (i + 1) s') =
          (if direction = 0 then currentStepCount s' - of_nat k else currentStepCount s' + of_nat k)"
        "k \<le> nat (steps - (i + 1))"
        "(direction = 1 \<longrightarrow> (\<forall>j. line_in s' limit_switch_top j \<noteq> 0))
          \<and> (direction = 0 \<longrightarrow> (\<forall>j. line_in s' limit_switch_bottom j \<noteq> 0))
          \<longrightarrow> k = nat (steps - (i + 1)) \<and> msg = []"
        by blast
      show ?thesis
        unfolding unf n using ih body_trace(2) [OF Inr] body_Inr [OF Inr]
        by (intro exI [of _ "Suc k"] exI [of _ msg]) auto
    qed
  qed
qed

lemma moveSteps_run:
  "\<exists>k msg. trace (moveSteps n d s) =
      trace s @ [Lock, SetValue enable_signal 1, SetValue dir_signal d]
        @ concat (replicate k (pulse_events (to_useconds (fdiv (stepDelay s) (Num 2)))))
        @ msg @ [SetValue enable_signal 0, Unlock]
    \<and> (msg = [] \<or> msg = [Cout ''Top limit switch triggered'']
        \<or> msg = [Cout ''Bottom limit switch triggered''])
    \<and> currentStepCount (moveSteps n d s) =
        (if d = 0 then currentStepCount s - of_nat k else currentStepCount s + of_nat k)
    \<and> k \<le> nat n
    \<and> ((d = 1 \<longrightarrow> (\<forall>j. line_in s limit_switch_top j \<noteq> 0))
        \<and> (d = 0 \<longrightarrow> (\<forall>j. line_in s limit_switch_bottom j \<noteq> 0))
        \<longrightarrow> k = nat n \<and> msg = [])"
proof -
  define s1 where "s1 = gpiod_line_set_value dir_signal d (enable ((emit Lock s)\<lparr>isMoving := True\<rparr>))"
  have s1: "currentStepCount s1 = currentStepCount s" "line_in s1 = line_in s"
    "trace s1 = trace s @ [Lock, SetValue enable_signal 1, SetValue dir_signal d]"
    by (simp_all add: s1_def enable_def)
  from loop_run [of n d "stepDelay s" 0 s1] obtain k msg where
    r: "trace (internalMoveSteps_loop n d (stepDelay s) 0 s1) =
      trace s1 @ concat (replicate k (pulse_events (to_useconds (fdiv (stepDelay s) (Num 2))))) @ msg"
    "msg = [] \<or> msg = [Cout ''Top limit switch triggered'']
        \<or> msg = [Cout ''Bottom limit switch triggered'']"
    "currentStepCount (internalMoveSteps_loop n d (stepDelay s) 0 s1) =
        (if d = 0 then currentStepCount s1 - of_nat k else currentStepCount s1 + of_nat k)"
    "k \<le> nat (n - 0)"
    "(d = 1 \<longrightarrow> (\<forall>j. line_in s1 limit_switch_top j \<noteq> 0))
        \<and> (d = 0 \<longrightarrow> (\<forall>j. line_in s1 limit_switch_bottom j \<noteq> 0))
        \<longrightarrow> k = nat (n - 0) \<and> msg = []"
    by blast
  show ?thesis
    using r s1
    by (intro exI [of _ k] exI [of _ msg])
      (simp add: moveSteps_loop_form disable_def s1_def [symmetric])
qed

lemma moveSteps_reads:
  "(d = 1 \<longrightarrow> (\<forall>k. line_in s limit_switch_top k \<noteq> 0)) \<Longrightarrow>
   (d = 0 \<longrightarrow> (\<forall>k. line_in s limit_switch_bottom k \<noteq> 0)) \<Longrightarrow>
   reads (moveSteps n d s) limit_switch_top = reads s limit_switch_top + nat n
   \<and> reads (moveSteps n d s) limit_switch_bottom = reads s limit_switch_bottom + nat n"
proof -
  assume a: "d = 1 \<longrightarrow> (\<forall>k. line_in s limit_switch_top k \<noteq> 0)"
    "d = 0 \<longrightarrow> (\<forall>k. line_in s limit_switch_bottom k \<noteq> 0)"
  define s1 where "s1 = gpiod_line_set_value dir_signal d (enable ((emit Lock s)\<lparr>isMoving := True\<rparr>))"
  have s1: "reads s1 = reads s" "line_in s1 = line_in s"
    by (simp_all add: s1_def enable_def)
  have "reads (internalMoveSteps_loop n d (stepDelay s) 0 s1) limit_switch_top =
      reads s1 limit_switch_top + nat (n - 0)
    \<and> reads (internalMoveSteps_loop n d (stepDelay s) 0 s1) limit_switch_bottom =
      reads s1 limit_switch_bottom + nat (n - 0)"
    using a by (intro loop_no_stop_reads) (simp_all add: s1)
  then show ?thesis
    by (simp add: moveSteps_loop_form disable_def s1_def [symmetric] s1)
qed

section \<open>The delay of a pulse\<close>

text \<open>
  The half delay that \<open>usleep\<close> is called with comes from five roundings: two products and
  a conversion in the divisor, the division in double, its conversion to float, and the
  halving. Together they stay within a relative \<open>2\<^sup>-\<^sup>2\<^sup>1\<close> of the exact quotient.
\<close>

lemma inverse_near:
  fixes r :: real
  assumes "\<bar>r - 1\<bar> \<le> 33554433 / 281474976710656"
  shows "\<bar>1 / r - 1\<bar> \<le> 2 * (33554433 / 281474976710656)"
proof -
  have rb: "1 - 33554433 / 281474976710656 \<le> r" "r \<le> 1 + 33554433 / 281474976710656"
    using assms by linarith+
  then have r0: "0 < r" by linarith
  have "(1 + 2 * (33554433 / 281474976710656)) * r = r + 67108866 / 281474976710656 * r"
    by (simp add: algebra_simps)
  then have "1 \<le> (1 + 2 * (33554433 / 281474976710656)) * r"
    using rb by linarith
  then have up: "1 / r \<le> 1 + 2 * (33554433 / 281474976710656)"
    using r0 by (simp only: pos_divide_le_eq)
  have "(1 - 2 * (33554433 / 281474976710656)) * r = r - 67108866 / 281474976710656 * r"
    by (simp add: algebra_simps)
  then have "(1 - 2 * (33554433 / 281474976710656)) * r \<le> 1"
    using rb by linarith
  then have lo: "1 - 2 * (33554433 / 281474976710656) \<le> 1 / r"
    using r0 by (simp only: pos_le_divide_eq)
  from up lo show ?thesis by linarith
qed

lemma half_delay_near:
  assumes v: "speed s = Num v" "1 / 2 ^ 40 \<le> v" "v \<le> 2 ^ 40"
    and g: "1 \<le> stepsPerRevolution s" "stepsPerRevolution s \<le> 2 ^ 24"
      "1 \<le> microstepping s" "microstepping s \<le> 2 ^ 24"
    and D: "D = 60000000 / (v * real_of_int (stepsPerRevolution s) * real_of_int (microstepping s))"
  shows "\<exists>t. fdiv (stepDelay s) (Num 2) = Num t \<and> \<bar>t - D / 2\<bar> \<le> D / 2 / 2 ^ 21 \<and> 0 < t"
proof -
  define p where "p = real_of_int (stepsPerRevolution s)"
  define m where "m = real_of_int (microstepping s)"
  have p: "1 \<le> p" "p \<le> 16777216" and m: "1 \<le> m" "m \<le> 16777216"
    using g by (simp_all add: p_def m_def)
  have conv: "float_of_int (stepsPerRevolution s) = Num p"
    "float_of_int (microstepping s) = Num m"
    unfolding p_def m_def using g by (auto intro!: float_of_int_exact)
  define P where "P = v * p"
  have "1 / 2 ^ 40 * 1 \<le> v * p" "v * p \<le> 2 ^ 40 * 16777216"
    using v(2,3) p by (intro mult_mono; simp)+
  then have P: "1 / 1099511627776 \<le> P" "P \<le> 18446744073709551616"
    by (simp_all add: P_def)
  have "1 / 2 ^ 126 \<le> \<bar>P\<bar>" "\<bar>P\<bar> \<le> 2 ^ 127"
    using P by simp_all
  from binary32_rel [OF this] obtain a1 where
    a1: "binary32 P = Num a1" "\<bar>a1 - P\<bar> \<le> \<bar>P\<bar> / 2 ^ 24"
    by blast
  have a1b: "\<bar>a1 - P\<bar> \<le> P / 16777216"
    using a1(2) P by simp
  define B where "B = P * m"
  have "1 / 1099511627776 * 1 \<le> P * m" "P * m \<le> 18446744073709551616 * 16777216"
    using P m by (intro mult_mono; simp)+
  then have B: "1 / 1099511627776 \<le> B" "B \<le> 309485009821345068724781056"
    by (simp_all add: B_def)
  have "a1 * m - B = (a1 - P) * m"
    by (simp add: B_def left_diff_distrib)
  then have "\<bar>a1 * m - B\<bar> = \<bar>a1 - P\<bar> * m"
    using m by (simp add: abs_mult)
  also have "\<dots> \<le> P / 16777216 * m"
    using a1b m by (intro mult_right_mono) simp_all
  also have "\<dots> = B / 16777216"
    by (simp add: B_def)
  finally have e1: "\<bar>a1 * m - B\<bar> \<le> B / 16777216" .
  have am: "B / 2 \<le> a1 * m" "a1 * m \<le> 2 * B"
    using e1 B by linarith+
  have "1 / 2 ^ 126 \<le> \<bar>a1 * m\<bar>" "\<bar>a1 * m\<bar> \<le> 2 ^ 127"
    using am B by simp_all
  from binary32_rel [OF this] obtain b where
    b: "binary32 (a1 * m) = Num b" "\<bar>b - a1 * m\<bar> \<le> \<bar>a1 * m\<bar> / 2 ^ 24"
    by blast
  have bb: "\<bar>b - a1 * m\<bar> \<le> a1 * m / 16777216"
    using b(2) am B by simp
  have e2: "\<bar>b - B\<bar> \<le> B * (33554433 / 281474976710656)"
    using bb e1 B by linarith
  have bpos: "0 < b" "B / 2 \<le> b" "b \<le> 2 * B"
    using e2 B by linarith+
  have dd: "delay_divisor s = Num b"
    by (simp add: delay_divisor_def v(1) conv fmul_Num P_def [symmetric] a1(1) b(1))
  define Q where "Q = 60000000 / b"
  have DB: "D = 60000000 / B"
    by (simp add: D B_def P_def p_def m_def)
  have Dpos: "0 < D"
    unfolding DB using B by simp
  have "60000000 / 309485009821345068724781056 \<le> 60000000 / B"
    using B by (intro divide_left_mono) simp_all
  moreover have "60000000 / B \<le> 60000000 / (1 / 1099511627776)"
    using B by (intro divide_left_mono) simp_all
  ultimately have Dr: "1 / 5158083497022417812079 \<le> D" "D \<le> 65970697666560000000"
    unfolding DB by simp_all
  have "b / B - 1 = (b - B) / B"
    using B by (simp add: diff_divide_distrib)
  then have "\<bar>b / B - 1\<bar> = \<bar>b - B\<bar> / B"
    using B by simp
  also have "\<dots> \<le> B * (33554433 / 281474976710656) / B"
    using e2 B by (intro divide_right_mono) simp_all
  also have "\<dots> = 33554433 / 281474976710656"
    using B by simp
  finally have "\<bar>1 / (b / B) - 1\<bar> \<le> 2 * (33554433 / 281474976710656)"
    by (rule inverse_near)
  moreover have "Q = D * (1 / (b / B))"
    using B bpos by (simp add: Q_def DB)
  ultimately have "\<bar>Q - D\<bar> \<le> D * (2 * (33554433 / 281474976710656))"
  proof -
    assume h: "\<bar>1 / (b / B) - 1\<bar> \<le> 2 * (33554433 / 281474976710656)" and q: "Q = D * (1 / (b / B))"
    have "Q - D = D * (1 / (b / B) - 1)"
      unfolding q by (simp add: right_diff_distrib)
    then have "\<bar>Q - D\<bar> = D * \<bar>1 / (b / B) - 1\<bar>"
      using Dpos by (simp add: abs_mult)
    also have "\<dots> \<le> D * (2 * (33554433 / 281474976710656))"
      using h Dpos by (intro mult_left_mono) simp_all
    finally show ?thesis .
  qed
  then have e3: "\<bar>Q - D\<bar> \<le> D * (2 * (33554433 / 281474976710656))" .
  have Qr: "D / 2 \<le> Q" "Q \<le> 2 * D"
    using e3 Dpos by linarith+
  have "1 / 2 ^ 1022 \<le> \<bar>Q\<bar>" "\<bar>Q\<bar> \<le> 2 ^ 1023"
    using Qr Dr by simp_all
  from binary64_rel [OF this] obtain q64 where
    q64: "binary64 Q = Num q64" "\<bar>q64 - Q\<bar> \<le> \<bar>Q\<bar> / 2 ^ 53"
    by blast
  have q64b: "\<bar>q64 - Q\<bar> \<le> Q / 9007199254740992"
    using q64(2) Qr Dr by simp
  have q64r: "D / 4 \<le> q64" "q64 \<le> 4 * D"
    using q64b Qr Dpos by linarith+
  have "1 / 2 ^ 126 \<le> \<bar>q64\<bar>" "\<bar>q64\<bar> \<le> 2 ^ 127"
    using q64r Dr by simp_all
  from binary32_rel [OF this] obtain d32 where
    d32: "binary32 q64 = Num d32" "\<bar>d32 - q64\<bar> \<le> \<bar>q64\<bar> / 2 ^ 24"
    by blast
  have d32b: "\<bar>d32 - q64\<bar> \<le> q64 / 16777216"
    using d32(2) q64r Dr by simp
  have d32r: "D / 8 \<le> d32" "d32 \<le> 8 * D"
    using d32b q64r Dpos by linarith+
  have sd: "stepDelay s = Num d32"
    using bpos
    by (simp add: stepDelay_def dd ddiv_def round64_def round32_def Q_def [symmetric] q64(1) d32(1))
  have "1 / 2 ^ 126 \<le> \<bar>d32 / 2\<bar>" "\<bar>d32 / 2\<bar> \<le> 2 ^ 127"
    using d32r Dr by simp_all
  from binary32_rel [OF this] obtain t where
    t: "binary32 (d32 / 2) = Num t" "\<bar>t - d32 / 2\<bar> \<le> \<bar>d32 / 2\<bar> / 2 ^ 24"
    by blast
  have tb: "\<bar>t - d32 / 2\<bar> \<le> d32 / 2 / 16777216"
    using t(2) d32r Dr by simp
  have "\<bar>t - D / 2\<bar> \<le> D / 2 / 2097152" "0 < t"
    using tb d32b q64b e3 Dpos by linarith+
  then have "\<bar>t - D / 2\<bar> \<le> D / 2 / 2 ^ 21" "0 < t"
    by simp_all
  moreover have "fdiv (stepDelay s) (Num 2) = Num t"
    by (simp add: sd fdiv_Num t(1))
  ultimately show ?thesis by blast
qed

lemma default_delay: "stepDelay clear_stepper = Num 1875"
  by (simp add: stepDelay_def delay_divisor_def clear_stepper_def float_eval)

lemma half_default_delay: "to_useconds (fdiv (Num 1875) (Num 2)) = Some 937"
  by (simp add: to_useconds_def trunc_def float_eval)

text \<open>
  C1, as stated, fails: the delay is not split evenly into two halves that make it up.
  With the speed 20 of the constructor, 200 steps and microstepping 8 the delay is
  \<open>60000000 / 32000 = 1875\<close> microseconds; half of it, \<open>937.5\<close>, is converted to the integer
  argument of \<open>usleep\<close>, so each half sleeps 937 microseconds and a pulse takes 1874.
\<close>

theorem pulse_halves_truncated:
  "trace (internalMoveSteps 1 1 clear_stepper) =
     trace clear_stepper @ [SetValue enable_signal 1, SetValue dir_signal 1,
       SetValue step_signal 1, Usleep (Some 937), SetValue step_signal 0, Usleep (Some 937),
       SetValue enable_signal 0]
   \<and> real 937 + real 937 \<noteq> 60000000 / (20 * 200 * 8)"
proof -
  have "line_in clear_stepper limit_switch_top 0 = 1" "line_in clear_stepper limit_switch_bottom 0 = 1"
    by (simp_all add: clear_stepper_def)
  then show ?thesis
    by (simp add: internalMoveSteps_loop_form internalMoveSteps_loop.simps
      internalMoveSteps_body_def Let_def split_beta disable_def enable_def
      default_delay half_default_delay gpiod_line_get_value_def clear_stepper_def [symmetric])
      (simp add: clear_stepper_def)
qed

text \<open>
  C1, amended. Every pulse of \<open>internalMoveSteps\<close> is the step line high, a sleep of \<open>h\<close>
  microseconds, the step line low, a sleep of \<open>h\<close> microseconds, with one and the same \<open>h\<close>
  for the whole move: the float \<open>stepDelay / 2\<close> converted to an unsigned integer. For a
  speed between \<open>2\<^sup>-\<^sup>4\<^sup>0\<close> and \<open>2\<^sup>4\<^sup>0\<close> and \<open>stepsPerRevolution\<close> and \<open>microstepping\<close> between 1 and
  \<open>2\<^sup>2\<^sup>4\<close>, with \<open>D = 60000000 / (speed * stepsPerRevolution * microstepping)\<close>: the float
  \<open>t = stepDelay / 2\<close> is within \<open>D / 2 / 2\<^sup>2\<^sup>1\<close> of \<open>D / 2\<close>, and \<open>h\<close> is \<open>t\<close> with its fraction
  dropped when \<open>t < 2\<^sup>3\<^sup>2\<close> (beyond that the conversion is not defined).
\<close>

theorem internalMoveSteps_pulse_timing:
  assumes "h = to_useconds (fdiv (stepDelay s) (Num 2))"
    and "D = 60000000 / (v * real_of_int (stepsPerRevolution s) * real_of_int (microstepping s))"
  shows "(\<exists>k msg. trace (internalMoveSteps steps direction s) =
        trace s @ [SetValue enable_signal 1, SetValue dir_signal direction]
          @ concat (replicate k [SetValue step_signal 1, Usleep h, SetValue step_signal 0, Usleep h])
          @ msg @ [SetValue enable_signal 0]
      \<and> (msg = [] \<or> msg = [Cout ''Top limit switch triggered'']
          \<or> msg = [Cout ''Bottom limit switch triggered'']))
    \<and> (speed s = Num v \<and> 1 / 2 ^ 40 \<le> v \<and> v \<le> 2 ^ 40
        \<and> 1 \<le> stepsPerRevolution s \<and> stepsPerRevolution s \<le> 2 ^ 24
        \<and> 1 \<le> microstepping s \<and> microstepping s \<le> 2 ^ 24 \<longrightarrow>
        (\<exists>t. fdiv (stepDelay s) (Num 2) = Num t \<and> \<bar>t - D / 2\<bar> \<le> D / 2 / 2 ^ 21
           \<and> h = (if t < 2 ^ 32 then Some (nat \<lfloor>t\<rfloor>) else None)))"
proof (intro conjI impI)
  show "\<exists>k msg. trace (internalMoveSteps steps direction s) =
        trace s @ [SetValue enable_signal 1, SetValue dir_signal direction]
          @ concat (replicate k [SetValue step_signal 1, Usleep h, SetValue step_signal 0, Usleep h])
          @ msg @ [SetValue enable_signal 0]
      \<and> (msg = [] \<or> msg = [Cout ''Top limit switch triggered'']
          \<or> msg = [Cout ''Bottom limit switch triggered''])"
    using internalMoveSteps_trace [of steps direction s]
    unfolding assms(1) pulse_events_def .
next
  assume r: "speed s = Num v \<and> 1 / 2 ^ 40 \<le> v \<and> v \<le> 2 ^ 40
        \<and> 1 \<le> stepsPerRevolution s \<and> stepsPerRevolution s \<le> 2 ^ 24
        \<and> 1 \<le> microstepping s \<and> microstepping s \<le> 2 ^ 24"
  from half_delay_near [OF _ _ _ _ _ _ _ assms(2)] r obtain t where
    t: "fdiv (stepDelay s) (Num 2) = Num t" "\<bar>t - D / 2\<bar> \<le> D / 2 / 2 ^ 21" "0 < t"
    by blast
  have "h = (if t < 2 ^ 32 then Some (nat \<lfloor>t\<rfloor>) else None)"
    unfolding assms(1) t(1) using t(3) by (simp add: to_useconds_def trunc_def)
  with t show "\<exists>t. fdiv (stepDelay s) (Num 2) = Num t \<and> \<bar>t - D / 2\<bar> \<le> D / 2 / 2 ^ 21
           \<and> h = (if t < 2 ^ 32 then Some (nat \<lfloor>t\<rfloor>) else None)"
    by blast
qed

theorem internalMoveSteps_pulse_timing_witness:
  "(\<exists>k msg. trace (internalMoveSteps 3 1 clear_stepper) =
        trace clear_stepper @ [SetValue enable_signal 1, SetValue dir_signal 1]
          @ concat (replicate k
              [SetValue step_signal 1, Usleep (Some 937), SetValue step_signal 0, Usleep (Some 937)])
          @ msg @ [SetValue enable_signal 0]
      \<and> (msg = [] \<or> msg = [Cout ''Top limit switch triggered'']
          \<or> msg = [Cout ''Bottom limit switch triggered'']))
    \<and> (\<exists>t. fdiv (stepDelay clear_stepper) (Num 2) = Num t
          \<and> \<bar>t - 1875 / 2\<bar> \<le> 1875 / 2 / 2 ^ 21
          \<and> Some 937 = (if t < 2 ^ 32 then Some (nat \<lfloor>t\<rfloor>) else None))"
proof -
  have h: "Some 937 = to_useconds (fdiv (stepDelay clear_stepper) (Num 2))"
    by (simp add: default_delay half_default_delay)
  have D: "(1875::real) = 60000000 / (20 * real_of_int (stepsPerRevolution clear_stepper)
      * real_of_int (microstepping clear_stepper))"
    by (simp add: clear_stepper_def)
  have r: "speed clear_stepper = Num 20 \<and> 1 / 2 ^ 40 \<le> (20::real) \<and> (20::real) \<le> 2 ^ 40
        \<and> 1 \<le> stepsPerRevolution clear_stepper \<and> stepsPerRevolution clear_stepper \<le> 2 ^ 24
        \<and> 1 \<le> microstepping clear_stepper \<and> microstepping clear_stepper \<le> 2 ^ 24"
    by (simp add: clear_stepper_def)
  from internalMoveSteps_pulse_timing [OF h D, of 3 1] r show ?thesis by blast
qed

section \<open>Moves by angle\<close>

lemma std_round_to_int:
  assumes "\<bar>y\<bar> < 2 ^ 31 - 1"
  shows "to_int (std_round (Num y)) =
     Some (if y < 0 then - \<lfloor>- y + 1 / 2\<rfloor> else \<lfloor>y + 1 / 2\<rfloor>)"
proof -
  define r where "r = (if y < 0 then - \<lfloor>- y + 1 / 2\<rfloor> else \<lfloor>y + 1 / 2\<rfloor>)"
  have near: "\<bar>real_of_int r - y\<bar> \<le> 1 / 2"
    unfolding r_def by (rule std_round_nearest(1))
  have rng: "- (2 ^ 31) - 1 < real_of_int r" "real_of_int r < 2 ^ 31"
    using near assms by linarith+
  have tr: "trunc (real_of_int r) = r"
    by (simp add: trunc_def)
  have "to_int (std_round (Num y)) = Some r"
    using rng tr by (simp add: std_round_def to_int_def r_def [symmetric])
  then show ?thesis by (simp add: r_def)
qed

lemma moveAngle_steps_full_turn:
  assumes "N = stepsPerRevolution s * microstepping s" and "0 \<le> N" and "N \<le> 2 ^ 21"
  shows "moveAngle_steps (Num 360) s = Some N"
proof (cases "N = 0")
  case True
  then have z: "stepsPerRevolution s * microstepping s = 0"
    using assms(1) by simp
  show ?thesis
    unfolding moveAngle_steps_def z
    by (simp add: int32_def float_of_int_def fmul_Num fdiv_Num std_round_def to_int_def
        trunc_def True)
next
  case False
  define x where "x = real_of_int N"
  have x: "1 \<le> x" "x \<le> 2 ^ 21"
    using assms(2,3) False by (simp_all add: x_def)
  have i32: "int32 (stepsPerRevolution s * microstepping s) = N"
    using assms by (simp add: int32_id)
  have conv: "float_of_int N = Num x"
    unfolding x_def using assms(2,3) by (intro float_of_int_exact) simp
  have "1 / 2 ^ 126 \<le> \<bar>x / 360\<bar>" "\<bar>x / 360\<bar> \<le> 2 ^ 127"
    using x by simp_all
  from binary32_rel [OF this] obtain q where
    q: "binary32 (x / 360) = Num q" "\<bar>q - x / 360\<bar> \<le> \<bar>x / 360\<bar> / 2 ^ 24"
    by blast
  have q2: "\<bar>q - x / 360\<bar> \<le> x / 360 / 16777216"
    using q(2) x by simp
  have qb: "x / 720 \<le> q" "360 * q \<le> 2 * x"
    using q2 x by linarith+
  have "1 / 2 ^ 126 \<le> \<bar>360 * q\<bar>" "\<bar>360 * q\<bar> \<le> 2 ^ 127"
    using qb x by simp_all
  from binary32_rel [OF this] obtain p where
    p: "binary32 (360 * q) = Num p" "\<bar>p - 360 * q\<bar> \<le> \<bar>360 * q\<bar> / 2 ^ 24"
    by blast
  have p2: "\<bar>p - 360 * q\<bar> \<le> 360 * q / 16777216"
    using p(2) qb x by simp
  have xn: "x \<le> 2097152"
    using x by simp
  have px: "\<bar>p - x\<bar> \<le> 3 / 8"
    using p2 q2 qb xn by linarith
  have arg: "fmul (Num 360) (fdiv (float_of_int (int32 (stepsPerRevolution s * microstepping s)))
      (Num 360)) = Num p"
    by (simp add: i32 conv fdiv_Num fmul_Num q(1) p(1))
  have "\<not> p < 0" "\<bar>p\<bar> < 2147483647"
    using px xn x(1) by linarith+
  then have p0: "\<not> p < 0" "\<bar>p\<bar> < 2 ^ 31 - 1"
    by simp_all
  have fl: "\<lfloor>p + 1 / 2\<rfloor> = N"
    using px unfolding x_def by linarith
  show ?thesis
    unfolding moveAngle_steps_def arg std_round_to_int [OF p0(2)] using p0(1) fl by simp
qed

lemma moveAngle_steps_near:
  assumes N: "N = stepsPerRevolution s * microstepping s" "1 \<le> N" "N \<le> 2 ^ 24"
    and a: "1 / 2 ^ 100 \<le> \<bar>a\<bar>"
    and x: "x = a * real_of_int N / 360" "\<bar>x\<bar> \<le> 2 ^ 30"
  shows "\<exists>y. fmul (Num a) (fdiv (float_of_int (int32 (stepsPerRevolution s * microstepping s)))
            (Num 360)) = Num y
          \<and> \<bar>y - x\<bar> \<le> \<bar>x\<bar> / 2 ^ 22 \<and> \<bar>y\<bar> < 2 ^ 31 - 1"
proof -
  define n where "n = real_of_int N"
  have n: "1 \<le> n" "n \<le> 16777216"
    using N(2,3) by (simp_all add: n_def)
  have i32: "int32 (stepsPerRevolution s * microstepping s) = N"
    using N by (simp add: int32_id)
  have conv: "float_of_int N = Num n"
    unfolding n_def using N(2,3) by (intro float_of_int_exact) simp
  have "1 / 2 ^ 126 \<le> \<bar>n / 360\<bar>" "\<bar>n / 360\<bar> \<le> 2 ^ 127"
    using n by simp_all
  from binary32_rel [OF this] obtain q where
    q: "binary32 (n / 360) = Num q" "\<bar>q - n / 360\<bar> \<le> \<bar>n / 360\<bar> / 2 ^ 24"
    by blast
  have q2: "\<bar>q - n / 360\<bar> \<le> n / 360 / 16777216"
    using q(2) n by simp
  define X where "X = \<bar>x\<bar>"
  have Xe: "X = \<bar>a\<bar> * (n / 360)"
    using n by (simp add: X_def x(1) n_def abs_mult)
  have "1 / 2 ^ 100 * (1 / 360) \<le> \<bar>a\<bar> * (n / 360)"
    using a n by (intro mult_mono) simp_all
  then have "1 / (2 ^ 100 * 360) \<le> X"
    unfolding Xe by simp
  moreover have "(1::real) / 2 ^ 109 \<le> 1 / (2 ^ 100 * 360)"
    by simp
  ultimately have "1 / 2 ^ 109 \<le> X"
    by (rule order_trans [rotated])
  then have Xlo: "1 / 649037107316853453566312041152512 \<le> X"
    by simp
  have Xhi: "X \<le> 1073741824"
    using x(2) by (simp add: X_def)
  have "a * q - x = a * (q - n / 360)"
    by (simp add: x(1) n_def right_diff_distrib)
  then have "\<bar>a * q - x\<bar> = \<bar>a\<bar> * \<bar>q - n / 360\<bar>"
    by (simp add: abs_mult)
  also have "\<dots> \<le> \<bar>a\<bar> * (n / 360 / 16777216)"
    using q2 by (intro mult_left_mono) simp_all
  also have "\<dots> = X / 16777216"
    by (simp add: Xe)
  finally have e1: "\<bar>a * q - x\<bar> \<le> X / 16777216" .
  have aq: "X / 2 \<le> \<bar>a * q\<bar>" "\<bar>a * q\<bar> \<le> 2 * X"
    using e1 Xlo unfolding X_def by linarith+
  have "1 / 2 ^ 126 \<le> \<bar>a * q\<bar>" "\<bar>a * q\<bar> \<le> 2 ^ 127"
    using aq Xlo Xhi by simp_all
  from binary32_rel [OF this] obtain y where
    y: "binary32 (a * q) = Num y" "\<bar>y - a * q\<bar> \<le> \<bar>a * q\<bar> / 2 ^ 24"
    by blast
  have y2: "\<bar>y - a * q\<bar> \<le> \<bar>a * q\<bar> / 16777216"
    using y(2) by simp
  have "\<bar>y - x\<bar> \<le> X / 4194304"
    using y2 e1 Xlo unfolding X_def by linarith
  then have b1: "\<bar>y - x\<bar> \<le> \<bar>x\<bar> / 2 ^ 22"
    by (simp add: X_def)
  have "\<bar>y\<bar> < 2147483647"
    using \<open>\<bar>y - x\<bar> \<le> X / 4194304\<close> Xhi unfolding X_def by linarith
  then have b2: "\<bar>y\<bar> < 2 ^ 31 - 1"
    by simp
  have "fmul (Num a) (fdiv (float_of_int (int32 (stepsPerRevolution s * microstepping s)))
      (Num 360)) = Num y"
    by (simp add: i32 conv fdiv_Num fmul_Num q(1) y(1))
  with b1 b2 show ?thesis by blast
qed

lemma moveAngle_steps_eval:
  "stepsPerRevolution s = spr \<Longrightarrow> microstepping s = ms \<Longrightarrow>
   moveAngle_steps a s = to_int (std_round (fmul a (fdiv (float_of_int (int32 (spr * ms))) (Num 360))))"
  by (simp add: moveAngle_steps_def)


text \<open>
  Nor does a full turn always give \<open>stepsPerRevolution * microstepping\<close> steps: with
  5898246 steps per revolution it gives one step more.
\<close>

lemma moveAngle_full_turn_beyond:
  "moveAngle_steps (Num 360) (PiStepper_init 27 17 22 5898246 1 (\<lambda>k. 1) (\<lambda>k. 1)) = Some 5898247"
proof -
  have "moveAngle_steps (Num 360) (PiStepper_init 27 17 22 5898246 1 (\<lambda>k. 1) (\<lambda>k. 1)) =
      to_int (std_round (fmul (Num 360) (fdiv (float_of_int (int32 (5898246 * 1))) (Num 360))))"
    by (rule moveAngle_steps_eval) simp_all
  also have "\<dots> = Some 5898247"
    by (simp add: float_eval std_round_def to_int_def trunc_def)
  finally show ?thesis .
qed



section \<open>Configuration values\<close>

lemma zero_divisor:
  assumes "v = Num x" and "\<bar>x\<bar> \<le> 2 ^ 64" and "\<bar>spr\<bar> \<le> 2 ^ 31" and "\<bar>ms\<bar> \<le> 2 ^ 31"
    and "x = 0 \<or> spr = 0 \<or> ms = 0"
  shows "fmul (fmul v (float_of_int spr)) (float_of_int ms) = Num 0"
proof -
  from float_of_int_finite [OF assms(3)] obtain p where
    p: "float_of_int spr = Num p" "\<bar>p\<bar> \<le> 2 ^ 32" by blast
  from float_of_int_finite [OF assms(4)] obtain m where
    m: "float_of_int ms = Num m" "\<bar>m\<bar> \<le> 2 ^ 32" by blast
  have p0: "spr = 0 \<Longrightarrow> p = 0" and m0: "ms = 0 \<Longrightarrow> m = 0"
    using p(1) m(1) by (auto simp: float_of_int_def)
  have "\<bar>x * p\<bar> \<le> 2 ^ 64 * 2 ^ 32"
    unfolding abs_mult using assms(2) p(2) by (intro mult_mono) simp_all
  then have "\<bar>x * p\<bar> \<le> 2 ^ 127" by simp
  from binary32_finite [OF this] obtain a where a: "binary32 (x * p) = Num a" ..
  have a0: "x = 0 \<or> spr = 0 \<Longrightarrow> a = 0"
    using a p0 by auto
  have "a * m = 0"
    using assms(5) a0 m0 by auto
  then have "binary32 (a * m) = Num 0"
    by (simp only: binary32_zero)
  then show ?thesis
    by (simp only: assms(1) p(1) m(1) fmul_Num a)
qed




section \<open>Moves over a duration\<close>

lemma rpm_near:
  assumes N: "N = stepsPerRevolution s * microstepping s" "1 \<le> N" "N \<le> 2 ^ 24"
    and st: "1 \<le> steps" "steps \<le> 2 ^ 24"
    and du: "1 \<le> durationSeconds" "durationSeconds \<le> 2 ^ 24"
    and R: "R = real_of_int steps / real_of_int durationSeconds * 60 / real_of_int N"
  shows "\<exists>r. moveStepsOverDuration_rpm steps durationSeconds s = Num r
          \<and> \<bar>r - R\<bar> \<le> R / 2 ^ 22"
proof -
  define n where "n = real_of_int N"
  define a where "a = real_of_int steps"
  define d where "d = real_of_int durationSeconds"
  have n: "1 \<le> n" "n \<le> 16777216" and a: "1 \<le> a" "a \<le> 16777216"
    and d: "1 \<le> d" "d \<le> 16777216"
    using N(2,3) st du by (simp_all add: n_def a_def d_def)
  have i32: "int32 (stepsPerRevolution s * microstepping s) = N"
    using N by (simp add: int32_id)
  have conv: "float_of_int N = Num n" "float_of_int steps = Num a"
    "float_of_int durationSeconds = Num d"
    unfolding n_def a_def d_def using N(2,3) st du by (auto intro!: float_of_int_exact)
  define S where "S = a / d"
  have "1 / 16777216 \<le> a / d"
    using a d by (intro frac_le) simp_all
  moreover have "a / d \<le> 16777216 / 1"
    using a d by (intro frac_le) simp_all
  ultimately have S: "1 / 16777216 \<le> S" "S \<le> 16777216"
    by (simp_all add: S_def)
  have "1 / 2 ^ 126 \<le> \<bar>S\<bar>" "\<bar>S\<bar> \<le> 2 ^ 127"
    using S by simp_all
  from binary32_rel [OF this] obtain q1 where
    q1: "binary32 S = Num q1" "\<bar>q1 - S\<bar> \<le> \<bar>S\<bar> / 2 ^ 24"
    by blast
  have q1b: "\<bar>q1 - S\<bar> \<le> S / 16777216"
    using q1(2) S by simp
  have q1r: "S / 2 \<le> q1" "q1 \<le> 2 * S"
    using q1b S by linarith+
  have "1 / 2 ^ 126 \<le> \<bar>q1 * 60\<bar>" "\<bar>q1 * 60\<bar> \<le> 2 ^ 127"
    using q1r S by simp_all
  from binary32_rel [OF this] obtain q2 where
    q2: "binary32 (q1 * 60) = Num q2" "\<bar>q2 - q1 * 60\<bar> \<le> \<bar>q1 * 60\<bar> / 2 ^ 24"
    by blast
  have q2b: "\<bar>q2 - q1 * 60\<bar> \<le> q1 * 60 / 16777216"
    using q2(2) q1r S by simp
  have q2r: "S \<le> q2" "q2 \<le> 240 * S"
    using q2b q1r S by linarith+
  have e2: "\<bar>q2 - 60 * S\<bar> \<le> 60 * S * (33554433 / 281474976710656)"
    using q2b q1b q1r S by linarith
  define T where "T = q2 / n"
  have RS: "R = 60 * S / n"
    by (simp add: R S_def a_def d_def n_def)
  have Rpos: "0 < R"
    unfolding RS using S n by simp
  have "T - R = (q2 - 60 * S) / n"
    by (simp add: T_def RS diff_divide_distrib)
  then have "\<bar>T - R\<bar> = \<bar>q2 - 60 * S\<bar> / n"
    using n by simp
  also have "\<dots> \<le> 60 * S * (33554433 / 281474976710656) / n"
    using e2 n by (intro divide_right_mono) simp_all
  also have "\<dots> = R * (33554433 / 281474976710656)"
    by (simp add: RS)
  finally have e3: "\<bar>T - R\<bar> \<le> R * (33554433 / 281474976710656)" .
  have "q2 / 16777216 \<le> q2 / n"
    using n q2r S by (intro divide_left_mono) simp_all
  moreover have "q2 / n \<le> q2 / 1"
    using n q2r S by (intro divide_left_mono) simp_all
  ultimately have Tr: "q2 / 16777216 \<le> T" "T \<le> q2"
    by (simp_all add: T_def)
  have "1 / 2 ^ 126 \<le> \<bar>T\<bar>" "\<bar>T\<bar> \<le> 2 ^ 127"
    using Tr q2r S by simp_all
  from binary32_rel [OF this] obtain q3 where
    q3: "binary32 T = Num q3" "\<bar>q3 - T\<bar> \<le> \<bar>T\<bar> / 2 ^ 24"
    by blast
  have q3b: "\<bar>q3 - T\<bar> \<le> T / 16777216"
    using q3(2) Tr q2r S by simp
  have "\<bar>q3 - R\<bar> \<le> R / 4194304"
    using q3b e3 Rpos by linarith
  then have b: "\<bar>q3 - R\<bar> \<le> R / 2 ^ 22"
    by simp
  have "moveStepsOverDuration_rpm steps durationSeconds s = Num q3"
    using d n
    by (simp add: moveStepsOverDuration_rpm_def i32 conv fdiv_Num fmul_Num S_def [symmetric]
        q1(1) q2(1) T_def [symmetric] q3(1))
  with b show ?thesis by blast
qed

lemma rpm_eval:
  "stepsPerRevolution s = spr \<Longrightarrow> microstepping s = ms \<Longrightarrow>
   moveStepsOverDuration_rpm steps durationSeconds s =
     fdiv (fmul (fdiv (float_of_int steps) (float_of_int durationSeconds)) (Num 60))
       (float_of_int (int32 (spr * ms)))"
  by (simp add: moveStepsOverDuration_rpm_def)

lemma moveStepsOverDuration_speed:
  "speed (moveStepsOverDuration steps durationSeconds s) =
     moveStepsOverDuration_rpm steps durationSeconds s"
  by (simp add: moveStepsOverDuration_def moveSteps_frame setSpeed_def)

text \<open>
  C8, as stated, fails: the speed that is stored is the result of three float operations,
  each rounded. For \<open>moveStepsOverDuration(1, 7)\<close> on the stepper with 200 steps and
  microstepping 8 it is \<open>5752189 / 2\<^sup>3\<^sup>0\<close>, which is neither \<open>1 / 7 * 60 / 1600\<close> nor the float
  nearest to it, \<open>11504377 / 2\<^sup>3\<^sup>1\<close>.
\<close>

theorem moveStepsOverDuration_rpm_rounded:
  "speed (moveStepsOverDuration 1 7 clear_stepper) = Num (5752189 / 2 ^ 30)
   \<and> binary32 (1 / 7 * 60 / (200 * 8)) = Num (11504377 / 2 ^ 31)"
proof -
  have "moveStepsOverDuration_rpm 1 7 clear_stepper =
     fdiv (fmul (fdiv (float_of_int 1) (float_of_int 7)) (Num 60)) (float_of_int (int32 (200 * 8)))"
    by (rule rpm_eval) (simp_all add: clear_stepper_def)
  also have "\<dots> = Num (5752189 / 2 ^ 30)"
    by (simp add: float_eval)
  finally have a: "speed (moveStepsOverDuration 1 7 clear_stepper) = Num (5752189 / 2 ^ 30)"
    by (simp add: moveStepsOverDuration_speed)
  have b: "binary32 (1 / 7 * 60 / (200 * 8)) = Num (11504377 / 2 ^ 31)"
    by (simp add: float_eval)
  from a b show ?thesis by (rule conjI)
qed

text \<open>
  C8, amended. With \<open>N = stepsPerRevolution * microstepping\<close> in the range of \<open>int\<close>, after
  \<open>moveStepsOverDuration(steps, durationSeconds)\<close> the speed is the float
  \<open>rpm = steps / durationSeconds * 60 / N\<close>, each of the three operations rounded to
  binary32, whatever speed was set before. The call then moves forward: the lock, the
  enable line to 1, the direction line to 1, \<open>k\<close> pulses timed by the new speed, at most one
  message, the enable line to 0, the unlock; the position counter grows by \<open>k\<close>, where
  \<open>k \<le> steps\<close>, and \<open>k = steps\<close> when the top switch never reads 0. For \<open>N\<close>, \<open>steps\<close> and
  \<open>durationSeconds\<close> between 1 and \<open>2\<^sup>2\<^sup>4\<close>, \<open>rpm\<close> is within a relative \<open>2\<^sup>-\<^sup>2\<^sup>2\<close> of the exact
  quotient.
\<close>

theorem moveStepsOverDuration_sets_speed:
  assumes "N = stepsPerRevolution s * microstepping s"
    and "- (2 ^ 31) \<le> N" and "N < 2 ^ 31"
    and "rpm = fdiv (fmul (fdiv (float_of_int steps) (float_of_int durationSeconds)) (Num 60))
                 (float_of_int N)"
    and "R = real_of_int steps / real_of_int durationSeconds * 60 / real_of_int N"
  shows "speed (moveStepsOverDuration steps durationSeconds s) = rpm
    \<and> speed (moveStepsOverDuration steps durationSeconds (setSpeed v s)) = rpm
    \<and> (\<exists>k msg. trace (moveStepsOverDuration steps durationSeconds s) =
          trace s @ [Lock, SetValue enable_signal 1, SetValue dir_signal 1]
            @ concat (replicate k
                (pulse_events (to_useconds (fdiv (stepDelay (setSpeed rpm s)) (Num 2)))))
            @ msg @ [SetValue enable_signal 0, Unlock]
        \<and> (msg = [] \<or> msg = [Cout ''Top limit switch triggered'']
            \<or> msg = [Cout ''Bottom limit switch triggered''])
        \<and> currentStepCount (moveStepsOverDuration steps durationSeconds s) =
            currentStepCount s + of_nat k
        \<and> k \<le> nat steps
        \<and> ((\<forall>j. line_in s limit_switch_top j \<noteq> 0) \<longrightarrow> k = nat steps \<and> msg = []))
    \<and> (1 \<le> N \<and> N \<le> 2 ^ 24 \<and> 1 \<le> steps \<and> steps \<le> 2 ^ 24
        \<and> 1 \<le> durationSeconds \<and> durationSeconds \<le> 2 ^ 24 \<longrightarrow>
        (\<exists>r. rpm = Num r \<and> \<bar>r - R\<bar> \<le> R / 2 ^ 22))"
proof -
  have i32: "int32 (stepsPerRevolution s * microstepping s) = N"
    using assms(1-3) by (simp add: int32_id)
  have rpm: "moveStepsOverDuration_rpm steps durationSeconds s = rpm"
    "moveStepsOverDuration_rpm steps durationSeconds (setSpeed v s) = rpm"
    by (simp_all add: moveStepsOverDuration_rpm_def assms(4) setSpeed_def i32)
  have a: "speed (moveStepsOverDuration steps durationSeconds s) = rpm"
    "speed (moveStepsOverDuration steps durationSeconds (setSpeed v s)) = rpm"
    by (simp_all add: moveStepsOverDuration_speed rpm)
  have m: "moveStepsOverDuration steps durationSeconds s = moveSteps steps 1 (setSpeed rpm s)"
    by (simp add: moveStepsOverDuration_def rpm)
  have f: "trace (setSpeed rpm s) = trace s" "currentStepCount (setSpeed rpm s) = currentStepCount s"
    "line_in (setSpeed rpm s) = line_in s"
    by (simp_all add: setSpeed_def)
  from moveSteps_run [of steps 1 "setSpeed rpm s"]
  have b: "\<exists>k msg. trace (moveStepsOverDuration steps durationSeconds s) =
          trace s @ [Lock, SetValue enable_signal 1, SetValue dir_signal 1]
            @ concat (replicate k
                (pulse_events (to_useconds (fdiv (stepDelay (setSpeed rpm s)) (Num 2)))))
            @ msg @ [SetValue enable_signal 0, Unlock]
        \<and> (msg = [] \<or> msg = [Cout ''Top limit switch triggered'']
            \<or> msg = [Cout ''Bottom limit switch triggered''])
        \<and> currentStepCount (moveStepsOverDuration steps durationSeconds s) =
            currentStepCount s + of_nat k
        \<and> k \<le> nat steps
        \<and> ((\<forall>j. line_in s limit_switch_top j \<noteq> 0) \<longrightarrow> k = nat steps \<and> msg = [])"
    unfolding m f by simp
  have c: "\<exists>r. rpm = Num r \<and> \<bar>r - R\<bar> \<le> R / 2 ^ 22"
    if "1 \<le> N \<and> N \<le> 2 ^ 24 \<and> 1 \<le> steps \<and> steps \<le> 2 ^ 24
        \<and> 1 \<le> durationSeconds \<and> durationSeconds \<le> 2 ^ 24"
    using rpm_near [OF assms(1) _ _ _ _ _ _ assms(5)] that
    unfolding rpm(1) by blast
  from a b c show ?thesis by blast
qed

theorem moveStepsOverDuration_sets_speed_witness:
  "speed (moveStepsOverDuration 40 1 clear_stepper) = Num (3 / 2)
   \<and> speed (moveStepsOverDuration 40 1 (setSpeed (Num 7) clear_stepper)) = Num (3 / 2)
   \<and> (\<exists>k msg. trace (moveStepsOverDuration 40 1 clear_stepper) =
          trace clear_stepper @ [Lock, SetValue enable_signal 1, SetValue dir_signal 1]
            @ concat (replicate k
                (pulse_events (to_useconds (fdiv (stepDelay (setSpeed (Num (3 / 2)) clear_stepper))
                   (Num 2)))))
            @ msg @ [SetValue enable_signal 0, Unlock]
        \<and> currentStepCount (moveStepsOverDuration 40 1 clear_stepper) =
            currentStepCount clear_stepper + of_nat k
        \<and> k = nat 40 \<and> msg = [])
   \<and> (\<exists>r. Num (3 / 2) = Num r \<and> \<bar>r - 3 / 2\<bar> \<le> 3 / 2 / 2 ^ 22)"
proof -
  have N: "(1600 :: int) = stepsPerRevolution clear_stepper * microstepping clear_stepper"
    "- (2 ^ 31) \<le> (1600 :: int)" "(1600 :: int) < 2 ^ 31"
    by (simp_all add: clear_stepper_def)
  have rpm: "Num (3 / 2) = fdiv (fmul (fdiv (float_of_int 40) (float_of_int 1)) (Num 60))
      (float_of_int 1600)"
    by (simp add: float_eval)
  have R: "(3 / 2 :: real) = real_of_int 40 / real_of_int 1 * 60 / real_of_int 1600"
    by simp
  have top: "\<forall>j. line_in clear_stepper limit_switch_top j \<noteq> 0"
    by (simp add: clear_stepper_def)
  have rng: "(1 :: int) \<le> 1600 \<and> (1600 :: int) \<le> 2 ^ 24 \<and> (1 :: int) \<le> 40 \<and> (40 :: int) \<le> 2 ^ 24
        \<and> (1 :: int) \<le> 1 \<and> (1 :: int) \<le> 2 ^ 24"
    by simp
  note th = moveStepsOverDuration_sets_speed [OF N rpm R, of "Num 7"]
  from th have a: "speed (moveStepsOverDuration 40 1 clear_stepper) = Num (3 / 2)"
    "speed (moveStepsOverDuration 40 1 (setSpeed (Num 7) clear_stepper)) = Num (3 / 2)"
    by blast+
  from th top have b: "\<exists>k msg. trace (moveStepsOverDuration 40 1 clear_stepper) =
          trace clear_stepper @ [Lock, SetValue enable_signal 1, SetValue dir_signal 1]
            @ concat (replicate k
                (pulse_events (to_useconds (fdiv (stepDelay (setSpeed (Num (3 / 2)) clear_stepper))
                   (Num 2)))))
            @ msg @ [SetValue enable_signal 0, Unlock]
        \<and> currentStepCount (moveStepsOverDuration 40 1 clear_stepper) =
            currentStepCount clear_stepper + of_nat k
        \<and> k = nat 40 \<and> msg = []"
    by blast
  from th rng have c: "\<exists>r. Num (3 / 2) = Num r \<and> \<bar>r - 3 / 2\<bar> \<le> 3 / 2 / 2 ^ 22"
    by blast
  from a b c show ?thesis by blast
qed

section \<open>Worked examples of the arithmetic\<close>

text \<open>
  What the roundings give on the stepper with 200 steps and microstepping 8. At the speed
  \<open>1217 / 2048\<close> the delay is the float 63106 and each half sleeps 31553 microseconds; at the
  speed \<open>0.1f\<close> the delay is 375000 and each half sleeps 187500. \<open>moveAngle(0.1125f, ...)\<close>
  makes one step. \<open>moveStepsOverDuration(1, 3)\<close> stores the speed \<open>13421773 / 2\<^sup>3\<^sup>0\<close>, and
  \<open>moveStepsOverDuration(1, 1)\<close> a speed with which each half of the pulse sleeps 499999
  microseconds.
\<close>

lemma stepDelay_eval:
  "speed s = v \<Longrightarrow> stepsPerRevolution s = spr \<Longrightarrow> microstepping s = ms \<Longrightarrow>
   stepDelay s = round32 (ddiv (Num (60 * 1000000)) (fmul (fmul v (float_of_int spr)) (float_of_int ms)))"
  by (simp add: stepDelay_def delay_divisor_def)

lemma half_delay_examples:
  "to_useconds (fdiv (stepDelay (setSpeed (Num (1217 / 2048)) clear_stepper)) (Num 2)) = Some 31553"
  "binary32 (1 / 10) = Num (13421773 / 2 ^ 27)"
  "to_useconds (fdiv (stepDelay (setSpeed (Num (13421773 / 2 ^ 27)) clear_stepper)) (Num 2)) = Some 187500"
proof -
  have "stepDelay (setSpeed (Num (1217 / 2048)) clear_stepper) =
     round32 (ddiv (Num (60 * 1000000)) (fmul (fmul (Num (1217 / 2048)) (float_of_int 200)) (float_of_int 8)))"
    by (rule stepDelay_eval) (simp_all add: setSpeed_def clear_stepper_def)
  also have "\<dots> = Num 63106"
    by (simp add: float_eval)
  finally show "to_useconds (fdiv (stepDelay (setSpeed (Num (1217 / 2048)) clear_stepper)) (Num 2)) = Some 31553"
    by (simp add: to_useconds_def trunc_def float_eval)
  show "binary32 (1 / 10) = Num (13421773 / 2 ^ 27)"
    by (simp add: float_eval)
  have "stepDelay (setSpeed (Num (13421773 / 2 ^ 27)) clear_stepper) =
     round32 (ddiv (Num (60 * 1000000)) (fmul (fmul (Num (13421773 / 2 ^ 27)) (float_of_int 200)) (float_of_int 8)))"
    by (rule stepDelay_eval) (simp_all add: setSpeed_def clear_stepper_def)
  also have "\<dots> = Num 375000"
    by (simp add: float_eval)
  finally show "to_useconds (fdiv (stepDelay (setSpeed (Num (13421773 / 2 ^ 27)) clear_stepper)) (Num 2)) = Some 187500"
    by (simp add: to_useconds_def trunc_def float_eval)
qed

lemma moveAngle_small_angle:
  "binary32 (1125 / 10000) = Num (15099494 / 2 ^ 27)"
  "moveAngle_steps (Num (15099494 / 2 ^ 27)) clear_stepper = Some 1"
proof -
  show "binary32 (1125 / 10000) = Num (15099494 / 2 ^ 27)"
    by (simp add: float_eval)
  have "moveAngle_steps (Num (15099494 / 2 ^ 27)) clear_stepper =
      to_int (std_round (fmul (Num (15099494 / 2 ^ 27)) (fdiv (float_of_int (int32 (200 * 8))) (Num 360))))"
    by (rule moveAngle_steps_eval) (simp_all add: clear_stepper_def)
  also have "\<dots> = Some 1"
    by (simp add: float_eval std_round_def to_int_def trunc_def)
  finally show "moveAngle_steps (Num (15099494 / 2 ^ 27)) clear_stepper = Some 1" .
qed

lemma moveStepsOverDuration_examples:
  "speed (moveStepsOverDuration 1 3 clear_stepper) = Num (13421773 / 2 ^ 30)"
  "speed (moveStepsOverDuration 1 1 clear_stepper) = Num (10066330 / 2 ^ 28)"
  "to_useconds (fdiv (stepDelay (setSpeed (Num (10066330 / 2 ^ 28)) clear_stepper)) (Num 2)) = Some 499999"
proof -
  have "moveStepsOverDuration_rpm 1 3 clear_stepper =
     fdiv (fmul (fdiv (float_of_int 1) (float_of_int 3)) (Num 60)) (float_of_int (int32 (200 * 8)))"
    by (rule rpm_eval) (simp_all add: clear_stepper_def)
  also have "\<dots> = Num (13421773 / 2 ^ 30)"
    by (simp add: float_eval)
  finally show "speed (moveStepsOverDuration 1 3 clear_stepper) = Num (13421773 / 2 ^ 30)"
    by (simp add: moveStepsOverDuration_speed)
  have "moveStepsOverDuration_rpm 1 1 clear_stepper =
     fdiv (fmul (fdiv (float_of_int 1) (float_of_int 1)) (Num 60)) (float_of_int (int32 (200 * 8)))"
    by (rule rpm_eval) (simp_all add: clear_stepper_def)
  also have "\<dots> = Num (10066330 / 2 ^ 28)"
    by (simp add: float_eval)
  finally show "speed (moveStepsOverDuration 1 1 clear_stepper) = Num (10066330 / 2 ^ 28)"
    by (simp add: moveStepsOverDuration_speed)
  have "stepDelay (setSpeed (Num (10066330 / 2 ^ 28)) clear_stepper) =
     round32 (ddiv (Num (60 * 1000000)) (fmul (fmul (Num (10066330 / 2 ^ 28)) (float_of_int 200)) (float_of_int 8)))"
    by (rule stepDelay_eval) (simp_all add: setSpeed_def clear_stepper_def)
  also have "\<dots> = Num (15999999 / 16)"
    by (simp add: float_eval)
  finally show "to_useconds (fdiv (stepDelay (setSpeed (Num (10066330 / 2 ^ 28)) clear_stepper)) (Num 2)) = Some 499999"
    by (simp add: to_useconds_def trunc_def float_eval)
qed

section \<open>Directions other than 0 and 1\<close>

text \<open>
  C10, as stated, fails: the loop does consult both limit switches. Each iteration calls
  \<open>gpiod_line_get_value\<close> on the top switch and on the bottom switch before it compares the
  direction, so \<open>moveSteps(4, 2)\<close> reads each switch four times.
\<close>

theorem moveSteps_reads_switches:
  "reads top_asserted_stepper limit_switch_top = 0
   \<and> reads top_asserted_stepper limit_switch_bottom = 0
   \<and> reads (moveSteps 4 2 top_asserted_stepper) limit_switch_top = 4
   \<and> reads (moveSteps 4 2 top_asserted_stepper) limit_switch_bottom = 4"
  using moveSteps_reads [of 2 top_asserted_stepper 4]
  by (simp add: top_asserted_stepper_def)

text \<open>
  C10, amended. For \<open>n > 0\<close> and a direction \<open>d\<close> other than 0 and 1, \<open>moveSteps(n, d)\<close> reads
  each limit switch \<open>n\<close> times, once before every pulse, and acts on none of the readings:
  whatever the switches read, what it does is the lock, the enable line to 1, the
  direction line to \<open>d\<close>, \<open>n\<close> pulses, the enable line to 0, the unlock. It issues all \<open>n\<close>
  pulses and adds \<open>n\<close> to the position counter: the direction counts as forward.
\<close>

theorem moveSteps_any_other_direction:
  "0 < n \<Longrightarrow> d \<noteq> 0 \<Longrightarrow> d \<noteq> 1 \<Longrightarrow>
   reads (moveSteps n d s) limit_switch_top = reads s limit_switch_top + nat n
   \<and> reads (moveSteps n d s) limit_switch_bottom = reads s limit_switch_bottom + nat n
   \<and> trace (moveSteps n d s) =
     trace s @ [Lock, SetValue enable_signal 1, SetValue dir_signal d]
       @ concat (replicate (nat n) (pulse_events (to_useconds (fdiv (stepDelay s) (Num 2)))))
       @ [SetValue enable_signal 0, Unlock]
   \<and> pulses (trace (moveSteps n d s)) = pulses (trace s) + nat n
   \<and> currentStepCount (moveSteps n d s) = currentStepCount s + word_of_int n"
proof -
  assume n: "0 < n" and d: "d \<noteq> 0" "d \<noteq> 1"
  define s1 where "s1 = gpiod_line_set_value dir_signal d (enable ((emit Lock s)\<lparr>isMoving := True\<rparr>))"
  have s1: "currentStepCount s1 = currentStepCount s" "pulses (trace s1) = pulses (trace s)"
    "trace s1 = trace s @ [Lock, SetValue enable_signal 1, SetValue dir_signal d]"
    by (simp_all add: s1_def enable_def)
  have "currentStepCount (internalMoveSteps_loop n d (stepDelay s) 0 s1) =
      currentStepCount s1 + (if d = 0 then - 1 else 1) * word_of_int (max 0 (n - 0))
     \<and> pulses (trace (internalMoveSteps_loop n d (stepDelay s) 0 s1)) =
      pulses (trace s1) + nat (n - 0)"
    using d by (intro loop_no_stop) simp_all
  moreover have "trace (internalMoveSteps_loop n d (stepDelay s) 0 s1) =
     trace s1 @ concat (replicate (nat (n - 0)) (pulse_events (to_useconds (fdiv (stepDelay s) (Num 2)))))"
    using d by (intro loop_no_stop_trace) simp_all
  moreover have "reads (moveSteps n d s) limit_switch_top = reads s limit_switch_top + nat n
    \<and> reads (moveSteps n d s) limit_switch_bottom = reads s limit_switch_bottom + nat n"
    using d by (intro moveSteps_reads) simp_all
  ultimately show ?thesis
    using n d s1 by (simp add: moveSteps_loop_form disable_def s1_def [symmetric])
qed

theorem moveSteps_any_other_direction_witness:
  "(0::int) < 4 \<and> (2::int) \<noteq> 0 \<and> (2::int) \<noteq> 1
   \<and> reads (moveSteps 4 2 top_asserted_stepper) limit_switch_top =
       reads top_asserted_stepper limit_switch_top + nat 4
   \<and> reads (moveSteps 4 2 top_asserted_stepper) limit_switch_bottom =
       reads top_asserted_stepper limit_switch_bottom + nat 4
   \<and> trace (moveSteps 4 2 top_asserted_stepper) =
     trace top_asserted_stepper @ [Lock, SetValue enable_signal 1, SetValue dir_signal 2]
       @ concat (replicate (nat 4)
           (pulse_events (to_useconds (fdiv (stepDelay top_asserted_stepper) (Num 2)))))
       @ [SetValue enable_signal 0, Unlock]
   \<and> pulses (trace (moveSteps 4 2 top_asserted_stepper)) = pulses (trace top_asserted_stepper) + nat 4
   \<and> currentStepCount (moveSteps 4 2 top_asserted_stepper) =
       currentStepCount top_asserted_stepper + word_of_int 4"
proof -
  have a: "(0::int) < 4" "(2::int) \<noteq> 0" "(2::int) \<noteq> 1"
    by simp_all
  from moveSteps_any_other_direction [OF a, of top_asserted_stepper] a show ?thesis
    by blast
qed

end
